theory Spec2Isabelle
  imports Main
begin

section \<open>JSON documents\<close>

text \<open>
  The documents held by the store are JSON values.  Numbers are modelled as integers;
  an object is the list of its own properties in insertion order.
\<close>

datatype json =
    JNull
  | JBool bool
  | JNum int
  | JStr string
  | JArr "json list"
  | JObj "(string \<times> json) list"

text \<open>
  The in-memory document of a database is a JavaScript value or \<open>undefined\<close>; \<open>None\<close>
  stands for \<open>undefined\<close>.  \<open>falsy x\<close> is the JavaScript test \<open>!x\<close>.
\<close>

fun falsy :: "json option \<Rightarrow> bool" where
  "falsy None = True"
| "falsy (Some JNull) = True"
| "falsy (Some (JBool b)) = (\<not> b)"
| "falsy (Some (JNum n)) = (n = 0)"
| "falsy (Some (JStr s)) = (s = [])"
| "falsy (Some (JArr xs)) = False"
| "falsy (Some (JObj kvs)) = False"

text \<open>
  \<open>JSON.stringify\<close> and \<open>JSON.parse\<close> belong to the runtime, not to the repository.
  Their text format is a parameter of the model: a codec is any pair of a printer and a
  parser (\<open>None\<close> is the parser's \<open>SyntaxError\<close>).
\<close>

record codec =
  stringify :: "json \<Rightarrow> string"
  parse :: "string \<Rightarrow> json option"

datatype error =
    TypeError
  | SyntaxError
  | ENOENT
  | EACCES
  | EEXIST
  | EISDIR
  | NotRegistered
  | NotLocked
  | UseBeforeUnlock

text \<open>\<open>JSON.stringify(undefined)\<close> is \<open>undefined\<close>.\<close>

definition JSON_stringify :: "codec \<Rightarrow> json option \<Rightarrow> string option" where
  "JSON_stringify J d = map_option (stringify J) d"

definition JSON_parse :: "codec \<Rightarrow> string \<Rightarrow> error + json" where
  "JSON_parse J s = (case parse J s of None \<Rightarrow> Inl SyntaxError | Some d \<Rightarrow> Inr d)"


section \<open>The file system\<close>

text \<open>
  A path is the list of its components.  \<open>Path.join\<close> drops empty components; the
  normalisation of \<open>.\<close> and \<open>..\<close> is not modelled (the components of a UID are class
  names or names accepted by \<open>nametest\<close>).
\<close>

type_synonym path = "string list"

definition path_join :: "string list \<Rightarrow> path" where
  "path_join segs = filter (\<lambda>s. s \<noteq> []) segs"

text \<open>
  The environment of the process: the plain files with their contents, the directories,
  the paths on which every access fails, and a log of what the process did to it (each
  call of \<open>JSON.stringify\<close> on the way to a write, each completed write, each
  \<open>mkdir\<close>).
\<close>

datatype io_event = Serialized | Wrote path string | MadeDir path

record env =
  files :: "path \<Rightarrow> string option"
  dirs :: "path set"
  denied :: "path set"
  oplog :: "io_event list"

definition dir_exists :: "env \<Rightarrow> path \<Rightarrow> bool" where
  "dir_exists e d = (d = [] \<or> d \<in> dirs e)"

definition readFileSync :: "env \<Rightarrow> path \<Rightarrow> error + string" where
  "readFileSync e p =
     (if p \<in> denied e then Inl EACCES
      else case files e p of None \<Rightarrow> Inl ENOENT | Some s \<Rightarrow> Inr s)"

text \<open>
  \<open>fs.writeFileSync(p, data)\<close>: \<open>data\<close> must be a string (\<open>undefined\<close> is a
  \<open>TypeError\<close>), the parent directory must exist.  The result is the exception thrown,
  if any, and the environment afterwards.
\<close>

definition writeFileSync :: "env \<Rightarrow> path \<Rightarrow> string option \<Rightarrow> error option \<times> env" where
  "writeFileSync e p dat =
     (case dat of
        None \<Rightarrow> (Some TypeError, e)
      | Some s \<Rightarrow>
          if p \<in> denied e then (Some EACCES, e)
          else if \<not> dir_exists e (butlast p) then (Some ENOENT, e)
          else if dir_exists e p then (Some EISDIR, e)
          else (None, e\<lparr>files := (files e)(p \<mapsto> s), oplog := oplog e @ [Wrote p s]\<rparr>))"

definition ancestors :: "path \<Rightarrow> path list" where
  "ancestors d = map (\<lambda>n. take n d) [1..<Suc (length d)]"

text \<open>\<open>fs.mkdirSync(dir, {recursive: true})\<close>.\<close>

definition mkdirSync :: "env \<Rightarrow> path \<Rightarrow> error option \<times> env" where
  "mkdirSync e d =
     (if \<exists>a \<in> set (ancestors d). a \<in> denied e then (Some EACCES, e)
      else if \<exists>a \<in> set (ancestors d). files e a \<noteq> None then (Some EEXIST, e)
      else (None, e\<lparr>dirs := dirs e \<union> set (ancestors d), oplog := oplog e @ [MadeDir d]\<rparr>))"

definition serialized :: "env \<Rightarrow> env" where
  "serialized e = e\<lparr>oplog := oplog e @ [Serialized]\<rparr>"


section \<open>Persistence\<close>

text \<open>\<open>UID.split(".")\<close>\<close>

fun split_dot :: "string \<Rightarrow> string list" where
  "split_dot [] = [[]]"
| "split_dot (c # cs) =
     (if c = CHR ''.'' then [] # split_dot cs
      else (case split_dot cs of [] \<Rightarrow> [[c]] | x # xs \<Rightarrow> (c # x) # xs))"

text \<open>
  \<open>getPath\<close>: the root path, then the segments of the UID after the leading one.
  The root is read on every call.
\<close>

definition getPath :: "string \<Rightarrow> string \<Rightarrow> path" where
  "getPath root uid = path_join (root # tl (split_dot uid))"

text \<open>
  \<open>writeToPath\<close> (local to \<open>writeDB\<close>): serialise and write; on any exception make the
  directory, then serialise and write again.
\<close>

definition writeToPath :: "codec \<Rightarrow> env \<Rightarrow> path \<Rightarrow> string \<Rightarrow> json option \<Rightarrow> error option \<times> env" where
  "writeToPath J e dir name dat =
     (let p = path_join (dir @ [name]);
          (r1, e1) = writeFileSync (serialized e) p (JSON_stringify J dat)
      in case r1 of
           None \<Rightarrow> (None, e1)
         | Some err1 \<Rightarrow>
             (let (r2, e2) = mkdirSync e1 dir
              in case r2 of
                   Some err2 \<Rightarrow> (Some err2, e2)
                 | None \<Rightarrow> writeFileSync (serialized e2) p (JSON_stringify J dat)))"

text \<open>
  The body of \<open>writeDB\<close> once the path and the document are known: the swap file, then
  the primary file; any exception gives \<open>"failed"\<close>.
\<close>

definition write_files :: "codec \<Rightarrow> env \<Rightarrow> path \<Rightarrow> json option \<Rightarrow> string \<times> env" where
  "write_files J e dir dat =
     (let (r1, e1) = writeToPath J e dir ''data.swp.json'' dat
      in case r1 of
           Some err \<Rightarrow> (''failed'', e1)
         | None \<Rightarrow>
             (let (r2, e2) = writeToPath J e1 dir ''data.json'' dat
              in case r2 of
                   Some err \<Rightarrow> (''failed'', e2)
                 | None \<Rightarrow> (''success'', e2)))"

text \<open>Reading and parsing one file: the body of each \<open>try\<close> block of \<open>safeReadDB\<close>.\<close>

definition read_json :: "codec \<Rightarrow> env \<Rightarrow> path \<Rightarrow> error + json" where
  "read_json J e p =
     (case readFileSync e p of
        Inl err \<Rightarrow> Inl err
      | Inr s \<Rightarrow> JSON_parse J s)"

text \<open>
  \<open>safeReadDB\<close>: the primary file; on any exception the swap file; on any exception
  there \<open>undefined\<close>.
\<close>

definition safeReadDB :: "codec \<Rightarrow> env \<Rightarrow> string \<Rightarrow> string \<Rightarrow> json option" where
  "safeReadDB J e root uid =
     (case read_json J e (path_join (getPath root uid @ [''data.json''])) of
        Inr d \<Rightarrow> Some d
      | Inl err \<Rightarrow>
          (case read_json J e (path_join (getPath root uid @ [''data.swp.json''])) of
             Inr d \<Rightarrow> Some d
           | Inl err' \<Rightarrow> None))"



section \<open>A reference codec\<close>

text \<open>
  One concrete codec, used to run the model on concrete inputs: the compact text that
  \<open>JSON.stringify\<close> prints, and a recursive-descent reader that also skips blanks.
\<close>

fun show_nat :: "nat \<Rightarrow> string" where
  "show_nat n =
     (if n < 10 then [char_of (48 + n)] else show_nat (n div 10) @ [char_of (48 + n mod 10)])"

definition show_int :: "int \<Rightarrow> string" where
  "show_int i = (if i < 0 then CHR ''-'' # show_nat (nat (- i)) else show_nat (nat i))"

fun escape :: "string \<Rightarrow> string" where
  "escape [] = []"
| "escape (c # cs) =
     (if c = CHR 0x22 \<or> c = CHR 0x5C then CHR 0x5C # c # escape cs else c # escape cs)"

definition quote :: "string \<Rightarrow> string" where
  "quote s = CHR 0x22 # escape s @ [CHR 0x22]"

fun commas :: "string list \<Rightarrow> string" where
  "commas [] = []"
| "commas [x] = x"
| "commas (x # y # ys) = x @ CHR '','' # commas (y # ys)"

fun print_json :: "json \<Rightarrow> string" where
  "print_json JNull = ''null''"
| "print_json (JBool b) = (if b then ''true'' else ''false'')"
| "print_json (JNum i) = show_int i"
| "print_json (JStr s) = quote s"
| "print_json (JArr xs) = CHR ''['' # commas (map print_json xs) @ '']''"
| "print_json (JObj kvs) =
     CHR ''{'' # commas (map (\<lambda>(k, v). quote k @ CHR '':'' # print_json v) kvs) @ ''}''"

definition is_digit :: "char \<Rightarrow> bool" where
  "is_digit c = (c \<in> set ''0123456789'')"

fun read_digits :: "string \<Rightarrow> nat \<Rightarrow> nat \<times> string" where
  "read_digits [] acc = (acc, [])"
| "read_digits (c # cs) acc =
     (if is_digit c
      then read_digits cs (10 * acc + (of_char c - 48))
      else (acc, c # cs))"

fun read_string :: "string \<Rightarrow> string \<Rightarrow> (string \<times> string) option" where
  "read_string [] acc = None"
| "read_string (c # cs) acc =
     (if c = CHR 0x22 then Some (rev acc, cs)
      else if c = CHR 0x5C then
        (case cs of [] \<Rightarrow> None | d # ds \<Rightarrow> read_string ds (d # acc))
      else read_string cs (c # acc))"

fun skip_ws :: "string \<Rightarrow> string" where
  "skip_ws [] = []"
| "skip_ws (c # cs) = (if c = CHR '' '' \<or> c = CHR 0x0A then skip_ws cs else c # cs)"

text \<open>The reader takes fuel; \<open>read_json_text\<close> gives it more than the text is long.\<close>

fun read_value :: "nat \<Rightarrow> string \<Rightarrow> (json \<times> string) option"
and read_elems :: "nat \<Rightarrow> string \<Rightarrow> json list \<Rightarrow> (json list \<times> string) option"
and read_members ::
  "nat \<Rightarrow> string \<Rightarrow> (string \<times> json) list \<Rightarrow> ((string \<times> json) list \<times> string) option"
where
  "read_value 0 s = None"
| "read_value (Suc n) s =
     (case skip_ws s of
        [] \<Rightarrow> None
      | c # cs \<Rightarrow>
          if c = CHR ''n'' then (if take 3 cs = ''ull'' then Some (JNull, drop 3 cs) else None)
          else if c = CHR ''t'' then (if take 3 cs = ''rue'' then Some (JBool True, drop 3 cs) else None)
          else if c = CHR ''f'' then (if take 4 cs = ''alse'' then Some (JBool False, drop 4 cs) else None)
          else if c = CHR 0x22 then map_option (\<lambda>(x, r). (JStr x, r)) (read_string cs [])
          else if c = CHR ''-'' then
            (case read_digits cs 0 of (k, r) \<Rightarrow> if r = cs then None else Some (JNum (- int k), r))
          else if is_digit c then
            (case read_digits (c # cs) 0 of (k, r) \<Rightarrow> Some (JNum (int k), r))
          else if c = CHR ''['' then
            (case skip_ws cs of
               [] \<Rightarrow> None
             | d # ds \<Rightarrow>
                 if d = CHR '']'' then Some (JArr [], ds)
                 else map_option (\<lambda>(xs, r). (JArr xs, r)) (read_elems n (d # ds) []))
          else if c = CHR ''{'' then
            (case skip_ws cs of
               [] \<Rightarrow> None
             | d # ds \<Rightarrow>
                 if d = CHR ''}'' then Some (JObj [], ds)
                 else map_option (\<lambda>(kvs, r). (JObj kvs, r)) (read_members n (d # ds) []))
          else None)"
| "read_elems 0 s acc = None"
| "read_elems (Suc n) s acc =
     (case read_value n s of
        None \<Rightarrow> None
      | Some (x, r) \<Rightarrow>
          (case skip_ws r of
             [] \<Rightarrow> None
           | c # cs \<Rightarrow>
               if c = CHR '']'' then Some (rev (x # acc), cs)
               else if c = CHR '','' then read_elems n cs (x # acc)
               else None))"
| "read_members 0 s acc = None"
| "read_members (Suc n) s acc =
     (case skip_ws s of
        [] \<Rightarrow> None
      | q # qs \<Rightarrow>
          if q \<noteq> CHR 0x22 then None
          else
            (case read_string qs [] of
               None \<Rightarrow> None
             | Some (k, r) \<Rightarrow>
                 (case skip_ws r of
                    [] \<Rightarrow> None
                  | c # cs \<Rightarrow>
                      if c \<noteq> CHR '':'' then None
                      else
                        (case read_value n cs of
                           None \<Rightarrow> None
                         | Some (v, r') \<Rightarrow>
                             (case skip_ws r' of
                                [] \<Rightarrow> None
                              | e # es \<Rightarrow>
                                  if e = CHR ''}'' then Some (rev ((k, v) # acc), es)
                                  else if e = CHR '','' then read_members n es ((k, v) # acc)
                                  else None)))))"

definition read_json_text :: "string \<Rightarrow> json option" where
  "read_json_text s =
     (case read_value (Suc (length s)) s of
        None \<Rightarrow> None
      | Some (d, r) \<Rightarrow> if skip_ws r = [] then Some d else None)"

definition text_codec :: codec where
  "text_codec = \<lparr>stringify = print_json, parse = read_json_text\<rparr>"


section \<open>JavaScript values and the deep copy\<close>

text \<open>
  The default value handed to the constructor is any JavaScript value: besides the
  JSON values there are \<open>undefined\<close>, functions, and objects reached by reference, which
  may be shared or cyclic.  The heap is the finite list of the objects and arrays.
\<close>

datatype jsval = Undefined | Null | Bool bool | Num int | Str string | Function | Ref nat

datatype jsobj = Array "jsval list" | Object "(string \<times> jsval) list"

type_synonym heap = "(nat \<times> jsobj) list"

fun first_error :: "(error + 'a) list \<Rightarrow> error option" where
  "first_error [] = None"
| "first_error (Inl e # rs) = Some e"
| "first_error (Inr x # rs) = first_error rs"

fun array_slot :: "error + json option \<Rightarrow> json" where
  "array_slot (Inr (Some j)) = j"
| "array_slot r = JNull"

fun object_slots :: "(string \<times> (error + json option)) list \<Rightarrow> (string \<times> json) list" where
  "object_slots [] = []"
| "object_slots ((k, Inr (Some j)) # rs) = (k, j) # object_slots rs"
| "object_slots ((k, r) # rs) = object_slots rs"

text \<open>
  What \<open>JSON.stringify\<close> makes of a value, before printing (ECMAScript's
  SerializeJSONProperty): \<open>undefined\<close> and functions have no JSON form (\<open>Inr None\<close>);
  in an array they print as \<open>null\<close>, in an object the property is left out; an object
  met again while it is being serialised is a \<open>TypeError\<close>.  \<open>st\<close> is the stack of the
  objects being serialised.
\<close>

function serialize :: "heap \<Rightarrow> nat list \<Rightarrow> jsval \<Rightarrow> error + json option" where
  "serialize h st Undefined = Inr None"
| "serialize h st Function = Inr None"
| "serialize h st Null = Inr (Some JNull)"
| "serialize h st (Bool b) = Inr (Some (JBool b))"
| "serialize h st (Num i) = Inr (Some (JNum i))"
| "serialize h st (Str s) = Inr (Some (JStr s))"
| "serialize h st (Ref a) =
     (if a \<in> set st then Inl TypeError
      else case map_of h a of
             None \<Rightarrow> Inr None
           | Some (Array xs) \<Rightarrow>
               (let rs = map (serialize h (a # st)) xs
                in case first_error rs of
                     Some e \<Rightarrow> Inl e
                   | None \<Rightarrow> Inr (Some (JArr (map array_slot rs))))
           | Some (Object kvs) \<Rightarrow>
               (let rs = map (\<lambda>kv. (fst kv, serialize h (a # st) (snd kv))) kvs
                in case first_error (map snd rs) of
                     Some e \<Rightarrow> Inl e
                   | None \<Rightarrow> Inr (Some (JObj (object_slots rs)))))"
  by pat_completeness auto
termination
proof (relation "measure (\<lambda>(h, st, v). card (fst ` set h - set st))")
  show "wf (measure (\<lambda>(h, st, v). card (fst ` set h - set st)))" by simp
next
  fix h :: heap and st a x2 x1 and x :: jsval
  assume a: "a \<notin> set st" and m: "map_of h a = Some x2"
  from m have "(a, x2) \<in> set h" by (rule map_of_SomeD)
  then have "a \<in> fst ` set h" by force
  then have "fst ` set h - set (a # st) \<subset> fst ` set h - set st" using a by auto
  then show "((h, a # st, x), h, st, Ref a) \<in> measure (\<lambda>(h, st, v). card (fst ` set h - set st))"
    by (simp add: psubset_card_mono)
next
  fix h :: heap and st a x2 x2a and x :: "string \<times> jsval"
  assume a: "a \<notin> set st" and m: "map_of h a = Some x2"
  from m have "(a, x2) \<in> set h" by (rule map_of_SomeD)
  then have "a \<in> fst ` set h" by force
  then have "fst ` set h - set (a # st) \<subset> fst ` set h - set st" using a by auto
  then show "((h, a # st, snd x), h, st, Ref a) \<in> measure (\<lambda>(h, st, v). card (fst ` set h - set st))"
    by (simp add: psubset_card_mono)
qed

text \<open>
  \<open>copyData(data) = JSON.parse(JSON.stringify(data))\<close>.  \<open>JSON.stringify\<close> throws on a
  cycle and returns \<open>undefined\<close> for a value with no JSON form; \<open>JSON.parse(undefined)\<close>
  is a \<open>SyntaxError\<close>.
\<close>

definition copyData :: "codec \<Rightarrow> heap \<Rightarrow> jsval \<Rightarrow> error + json" where
  "copyData J h v =
     (case serialize h [] v of
        Inl e \<Rightarrow> Inl e
      | Inr None \<Rightarrow> Inl SyntaxError
      | Inr (Some j) \<Rightarrow> JSON_parse J (stringify J j))"


section \<open>The registry, the queues and the handles\<close>

text \<open>
  The two queues of a database: \<open>unlock\<close> orders the lock, \<open>write_end\<close> orders the
  writes to disk.
\<close>

datatype event = unlock | write_end

text \<open>
  The two closures the code passes to \<open>wait\<close>: \<open>lockDB\<close>'s
  \<open>() => { lockover(); return lock; }\<close> and \<open>safeWriteDB\<close>'s \<open>() => this.writeDB(db)\<close>.
\<close>

datatype todo = LockTodo | WriteTodo

text \<open>
  A \<open>DBTransaction\<close> is \<open>[todo, uuid, resolve]\<close>.  The promise that \<open>resolve\<close> settles
  is named by the serial number of the call that made it.  A call of \<open>lockDB\<close> or
  \<open>safeWriteDB\<close> as a whole is named by a \<open>jobid\<close>: the database's UID, the handle's
  uuid, the serial number.
\<close>

type_synonym DBTransaction = "todo \<times> nat \<times> nat"

type_synonym jobid = "string \<times> nat \<times> nat"

record Transaction =
  t_list :: "DBTransaction list"
  t_uuid :: "nat option"

record SillyDBStatus =
  transactions :: "event \<Rightarrow> Transaction"
  db_data :: "json option"

text \<open>
  A handle's \<open>unlockDB\<close> is the closure that throws \<open>"use a DB before unlock."\<close>, or the
  resolver that \<open>lockDB\<close> returned.
\<close>

datatype unlockfn = Thrower | Resolver jobid

record handle =
  h_class :: string
  h_default :: json
  h_locking :: bool
  h_unlockDB :: unlockfn

text \<open>
  The code is asynchronous: a call runs until its first \<open>await\<close>, the rest runs later as
  a microtask.  The continuations the code leaves behind:
  \<^item> \<open>LockDB_wait\<close>: \<open>lockDB\<close> after its first \<open>await\<close>, about to call \<open>wait\<close>;
  \<^item> \<open>Use_locked\<close>: \<open>lockDB\<close> after \<open>lockover()\<close>, returning the resolver to \<open>use\<close>,
    which stores it and sets \<open>__locking\<close>;
  \<^item> \<open>Handler_done\<close>: the queue's event handler after \<open>await todo()\<close>, about to call
    \<open>resolve\<close> with the result and to emit the event again;
  \<^item> \<open>SaveClose_close\<close>: \<open>saveClose\<close> after \<open>await this.save()\<close>, about to call
    \<open>close\<close>.
\<close>

datatype microtask =
    LockDB_wait string nat nat
  | Use_locked string nat nat
  | Handler_done string event nat nat "string option"
  | SaveClose_close nat

text \<open>
  Instrumentation: the order in which handles call \<open>use\<close>, jobs are queued and
  started, and handles become locked.
\<close>

datatype hist_event =
    Opened jobid
  | Enqueued event jobid
  | Started event jobid
  | Locked jobid

text \<open>
  The state of the process: the root path (\<open>__path\<close>), the registry (\<open>__databases\<close>),
  the handles by uuid, the environment, the lock promises already resolved, the handler
  invocations suspended on a lock promise, the results handed to \<open>resolve\<close>, the
  \<open>saveClose\<close> calls suspended on a \<open>save\<close>, the microtask queue, the next unused serial
  number (uuids are taken from the same supply: \<open>crypto.randomUUID()\<close> never repeats),
  and the instrumentation.
\<close>

record world =
  w_path :: string
  databases :: "string \<Rightarrow> SillyDBStatus option"
  handles :: "nat \<Rightarrow> handle option"
  disk :: env
  resolved :: "jobid set"
  suspended :: "(event \<times> jobid) list"
  delivered :: "jobid \<Rightarrow> string option"
  awaiting_save :: "(jobid \<times> nat) list"
  microtasks :: "microtask list"
  fresh :: nat
  history :: "hist_event list"

definition init_world :: "env \<Rightarrow> world" where
  "init_world e =
     \<lparr>w_path = ''./data'', databases = (\<lambda>u. None), handles = (\<lambda>h. None), disk = e,
      resolved = {}, suspended = [], delivered = (\<lambda>i. None), awaiting_save = [],
      microtasks = [], fresh = 0, history = []\<rparr>"

subsection \<open>\<open>SillyDBUtils\<close>\<close>

definition hasDB :: "world \<Rightarrow> string \<Rightarrow> SillyDBStatus option" where
  "hasDB w u = databases w u"

definition getDBStatus :: "world \<Rightarrow> string \<Rightarrow> error + SillyDBStatus" where
  "getDBStatus w u = (case hasDB w u of None \<Rightarrow> Inl NotRegistered | Some st \<Rightarrow> Inr st)"

definition getData :: "world \<Rightarrow> string \<Rightarrow> error + json option" where
  "getData w u = (case getDBStatus w u of Inl err \<Rightarrow> Inl err | Inr st \<Rightarrow> Inr (db_data st))"

definition setData :: "string \<Rightarrow> json option \<Rightarrow> world \<Rightarrow> error option \<times> world" where
  "setData u d w =
     (case getDBStatus w u of
        Inl err \<Rightarrow> (Some err, w)
      | Inr st \<Rightarrow> (None, w\<lparr>databases := (databases w)(u \<mapsto> st\<lparr>db_data := d\<rparr>)\<rparr>))"

text \<open>\<open>root_path(newPath?)\<close>: a truthy argument replaces the root; the root is returned.\<close>

definition root_path :: "string option \<Rightarrow> world \<Rightarrow> string \<times> world" where
  "root_path newPath w =
     (case newPath of
        None \<Rightarrow> (w_path w, w)
      | Some p \<Rightarrow> if p = [] then (w_path w, w) else (p, w\<lparr>w_path := p\<rparr>))"

text \<open>
  \<open>new SillyDBStatus(DB)\<close>: two empty queues, and the document read from disk at
  this moment.
\<close>

definition new_status :: "codec \<Rightarrow> world \<Rightarrow> string \<Rightarrow> SillyDBStatus" where
  "new_status J w u =
     \<lparr>transactions = (\<lambda>ev. \<lparr>t_list = [], t_uuid = None\<rparr>),
      db_data = safeReadDB J (disk w) (fst (root_path None w)) u\<rparr>"

definition regist :: "codec \<Rightarrow> string \<Rightarrow> world \<Rightarrow> world" where
  "regist J u w =
     (case hasDB w u of
        Some st \<Rightarrow> w
      | None \<Rightarrow> w\<lparr>databases := (databases w)(u \<mapsto> new_status J w u)\<rparr>)"

text \<open>
  \<open>writeDB\<close>: \<open>getData\<close> raises for an unregistered database, inside the \<open>try\<close>; the path
  is computed from the root as it is now.
\<close>

definition writeDB :: "codec \<Rightarrow> string \<Rightarrow> world \<Rightarrow> string \<times> world" where
  "writeDB J u w =
     (case getData w u of
        Inl err \<Rightarrow> (''failed'', w)
      | Inr d \<Rightarrow>
          (let (r, e') = write_files J (disk w) (getPath (fst (root_path None w)) u) d
           in (r, w\<lparr>disk := e'\<rparr>)))"

subsection \<open>\<open>SillyDBStatus\<close>: the queues\<close>

definition transaction_of :: "world \<Rightarrow> string \<Rightarrow> event \<Rightarrow> Transaction" where
  "transaction_of w u ev =
     (case databases w u of
        None \<Rightarrow> \<lparr>t_list = [], t_uuid = None\<rparr>
      | Some st \<Rightarrow> transactions st ev)"

definition upd_transaction :: "string \<Rightarrow> event \<Rightarrow> (Transaction \<Rightarrow> Transaction) \<Rightarrow> world \<Rightarrow> world" where
  "upd_transaction u ev f w =
     (case databases w u of
        None \<Rightarrow> w
      | Some st \<Rightarrow>
          w\<lparr>databases := (databases w)(u \<mapsto> st\<lparr>transactions := (transactions st)(ev := f (transactions st ev))\<rparr>)\<rparr>)"

definition enqueue_microtask :: "microtask \<Rightarrow> world \<Rightarrow> world" where
  "enqueue_microtask t w = w\<lparr>microtasks := microtasks w @ [t]\<rparr>"

definition record_event :: "hist_event \<Rightarrow> world \<Rightarrow> world" where
  "record_event x w = w\<lparr>history := history w @ [x]\<rparr>"

text \<open>
  Running a job's \<open>todo\<close> and awaiting its result.  The lock closure calls \<open>lockover()\<close>,
  which lets \<open>lockDB\<close> return, and returns the lock promise: the handler stays suspended
  until the resolver is called.  The write closure writes at once and returns a string.
\<close>

definition run_todo :: "codec \<Rightarrow> string \<Rightarrow> event \<Rightarrow> DBTransaction \<Rightarrow> world \<Rightarrow> world" where
  "run_todo J u ev job w =
     (case job of (td, uuid, n) \<Rightarrow>
        (case td of
           LockTodo \<Rightarrow>
             (let w1 = enqueue_microtask (Use_locked u uuid n) w
              in if (u, uuid, n) \<in> resolved w1
                 then enqueue_microtask (Handler_done u ev uuid n None) w1
                 else w1\<lparr>suspended := suspended w1 @ [(ev, (u, uuid, n))]\<rparr>)
         | WriteTodo \<Rightarrow>
             (let (r, w1) = writeDB J u w
              in enqueue_microtask (Handler_done u ev uuid n (Some r)) w1)))"

text \<open>
  The handler registered with \<open>events.on(eventName, ...)\<close>, up to its \<open>await\<close>: clear the
  active uuid, take the first job off the list, mark it active, run it.
\<close>

definition on_event :: "codec \<Rightarrow> string \<Rightarrow> event \<Rightarrow> world \<Rightarrow> world" where
  "on_event J u ev w =
     (let w1 = upd_transaction u ev (\<lambda>t. t\<lparr>t_uuid := None\<rparr>) w
      in case t_list (transaction_of w1 u ev) of
           [] \<Rightarrow> w1
         | job # rest \<Rightarrow>
             (let w2 = upd_transaction u ev (\<lambda>t. t\<lparr>t_list := rest\<rparr>) w1;
                  w3 = upd_transaction u ev (\<lambda>t. t\<lparr>t_uuid := Some (fst (snd job))\<rparr>) w2;
                  w4 = record_event (Started ev (u, snd job)) w3
              in run_todo J u ev job w4))"

text \<open>\<open>wait\<close>: push the job; emit the event if no job is active.\<close>

definition wait :: "codec \<Rightarrow> string \<Rightarrow> event \<Rightarrow> nat \<Rightarrow> todo \<Rightarrow> nat \<Rightarrow> world \<Rightarrow> world" where
  "wait J u ev uuid td n w =
     (let w1 = upd_transaction u ev (\<lambda>t. t\<lparr>t_list := t_list t @ [(td, uuid, n)]\<rparr>) w;
          w2 = record_event (Enqueued ev (u, uuid, n)) w1
      in if t_uuid (transaction_of w2 u ev) = None then on_event J u ev w2 else w2)"

text \<open>
  The resolver of a lock promise: the first call resolves it and wakes the handler
  suspended on it; later calls do nothing.
\<close>

definition resolver :: "jobid \<Rightarrow> world \<Rightarrow> world" where
  "resolver i w =
     (if i \<in> resolved w then w
      else w\<lparr>resolved := insert i (resolved w),
             suspended := filter (\<lambda>f. snd f \<noteq> i) (suspended w),
             microtasks := microtasks w @
               map (\<lambda>f. Handler_done (fst i) (fst f) (fst (snd i)) (snd (snd i)) None)
                 (filter (\<lambda>f. snd f = i) (suspended w))\<rparr>)"

text \<open>
  \<open>resolve(result)\<close> at the end of a job: the promise of \<open>wait\<close> is fulfilled; a
  \<open>saveClose\<close> suspended on it goes on.
\<close>

definition deliver :: "jobid \<Rightarrow> string option \<Rightarrow> world \<Rightarrow> world" where
  "deliver i r w =
     w\<lparr>delivered := (delivered w)(i := r),
       awaiting_save := filter (\<lambda>a. fst a \<noteq> i) (awaiting_save w),
       microtasks := microtasks w @
         map (\<lambda>a. SaveClose_close (snd a)) (filter (\<lambda>a. fst a = i) (awaiting_save w))\<rparr>"

subsection \<open>\<open>SillyDB\<close>: the handle\<close>

datatype 'a outcome = Throws error | Returns 'a

text \<open>
  The constructor: register the class, copy the default, draw a uuid.  The registration
  stays when the copy throws.
\<close>

definition construct :: "codec \<Rightarrow> string \<Rightarrow> heap \<Rightarrow> jsval \<Rightarrow> world \<Rightarrow> nat outcome \<times> world" where
  "construct J u hp dv w =
     (let w1 = regist J u w
      in case copyData J hp dv of
           Inl err \<Rightarrow> (Throws err, w1)
         | Inr d \<Rightarrow>
             (Returns (fresh w1),
              w1\<lparr>handles := (handles w1)(fresh w1 \<mapsto>
                    \<lparr>h_class = u, h_default = d, h_locking = False, h_unlockDB = Thrower\<rparr>),
                  fresh := Suc (fresh w1)\<rparr>))"

text \<open>
  \<open>use\<close> up to the first \<open>await\<close> of \<open>lockDB\<close>.  A call on something that is not a
  handle cannot be written in the program; the model answers \<open>TypeError\<close>.
\<close>

definition use :: "nat \<Rightarrow> world \<Rightarrow> unit outcome \<times> world" where
  "use h w =
     (case handles w h of
        None \<Rightarrow> (Throws TypeError, w)
      | Some x \<Rightarrow>
          if h_locking x then (Returns (), w)
          else
            (case hasDB w (h_class x) of
               None \<Rightarrow> (Throws NotRegistered, w)
             | Some st \<Rightarrow>
                 (Returns (),
                  record_event (Opened (h_class x, h, fresh w))
                    (enqueue_microtask (LockDB_wait (h_class x) h (fresh w))
                      (w\<lparr>fresh := Suc (fresh w)\<rparr>)))))"

definition close :: "nat \<Rightarrow> world \<Rightarrow> unit outcome \<times> world" where
  "close h w =
     (case handles w h of
        None \<Rightarrow> (Throws TypeError, w)
      | Some x \<Rightarrow>
          (case h_unlockDB x of
             Thrower \<Rightarrow> (Throws UseBeforeUnlock, w)
           | Resolver i \<Rightarrow>
               (let w1 = resolver i w
                in (Returns (), w1\<lparr>handles := (handles w1)(h \<mapsto> x\<lparr>h_locking := False\<rparr>)\<rparr>))))"

text \<open>
  \<open>save\<close>: the call returns the promise of \<open>wait\<close>, named by its job; the status string
  arrives in \<open>delivered\<close> when the handler resumes.
\<close>

definition save :: "codec \<Rightarrow> nat \<Rightarrow> world \<Rightarrow> jobid outcome \<times> world" where
  "save J h w =
     (case handles w h of
        None \<Rightarrow> (Throws TypeError, w)
      | Some x \<Rightarrow>
          if \<not> h_locking x then (Throws NotLocked, w)
          else
            (case getDBStatus w (h_class x) of
               Inl err \<Rightarrow> (Throws err, w)
             | Inr st \<Rightarrow>
                 (Returns (h_class x, h, fresh w),
                  wait J (h_class x) write_end h WriteTodo (fresh w) (w\<lparr>fresh := Suc (fresh w)\<rparr>))))"

definition saveClose :: "codec \<Rightarrow> nat \<Rightarrow> world \<Rightarrow> unit outcome \<times> world" where
  "saveClose J h w =
     (case handles w h of
        None \<Rightarrow> (Throws TypeError, w)
      | Some x \<Rightarrow>
          if \<not> h_locking x then (Throws NotLocked, w)
          else
            (case save J h w of
               (Throws err, w1) \<Rightarrow> (Throws err, w1)
             | (Returns i, w1) \<Rightarrow>
                 (Returns (), w1\<lparr>awaiting_save := awaiting_save w1 @ [(i, h)]\<rparr>)))"

text \<open>\<open>[Symbol.asyncDispose]\<close>\<close>

definition asyncDispose :: "codec \<Rightarrow> nat \<Rightarrow> world \<Rightarrow> unit outcome \<times> world" where
  "asyncDispose J h w =
     (case handles w h of
        None \<Rightarrow> (Throws TypeError, w)
      | Some x \<Rightarrow> if h_locking x then saveClose J h w else (Returns (), w))"

text \<open>The getter and the setter of \<open>data\<close>.\<close>

definition data_get :: "nat \<Rightarrow> world \<Rightarrow> json outcome \<times> world" where
  "data_get h w =
     (case handles w h of
        None \<Rightarrow> (Throws TypeError, w)
      | Some x \<Rightarrow>
          if \<not> h_locking x then (Throws NotLocked, w)
          else
            (case getData w (h_class x) of
               Inl err \<Rightarrow> (Throws err, w)
             | Inr d \<Rightarrow>
                 if falsy d
                 then (case setData (h_class x) (Some (h_default x)) w of
                         (Some err, w1) \<Rightarrow> (Throws err, w1)
                       | (None, w1) \<Rightarrow> (Returns (h_default x), w1))
                 else (case d of
                         None \<Rightarrow> (Throws TypeError, w)
                       | Some v \<Rightarrow> (Returns v, w))))"

definition data_set :: "nat \<Rightarrow> json option \<Rightarrow> world \<Rightarrow> unit outcome \<times> world" where
  "data_set h newData w =
     (case handles w h of
        None \<Rightarrow> (Throws TypeError, w)
      | Some x \<Rightarrow>
          if \<not> h_locking x then (Throws NotLocked, w)
          else (case setData (h_class x) newData w of
                  (Some err, w1) \<Rightarrow> (Throws err, w1)
                | (None, w1) \<Rightarrow> (Returns (), w1)))"

subsection \<open>Running the process\<close>

fun run_microtask :: "codec \<Rightarrow> microtask \<Rightarrow> world \<Rightarrow> world" where
  "run_microtask J (LockDB_wait u h n) w = wait J u unlock h LockTodo n w"
| "run_microtask J (Use_locked u h n) w =
     (case handles w h of
        None \<Rightarrow> w
      | Some x \<Rightarrow>
          record_event (Locked (u, h, n))
            (w\<lparr>handles := (handles w)(h \<mapsto> x\<lparr>h_unlockDB := Resolver (u, h, n), h_locking := True\<rparr>)\<rparr>))"
| "run_microtask J (Handler_done u ev h n r) w = on_event J u ev (deliver (u, h, n) r w)"
| "run_microtask J (SaveClose_close h) w = snd (close h w)"

definition tick :: "codec \<Rightarrow> world \<Rightarrow> world" where
  "tick J w =
     (case microtasks w of
        [] \<Rightarrow> w
      | t # ts \<Rightarrow> run_microtask J t (w\<lparr>microtasks := ts\<rparr>))"

text \<open>
  What can happen next: the program calls one of the operations, or the runtime runs
  the first microtask.
\<close>

datatype action =
    New string heap jsval
  | Use nat
  | Close nat
  | Save nat
  | SaveClose nat
  | Dispose nat
  | GetData nat
  | SetData nat "json option"
  | RootPath "string option"
  | Tick

fun step :: "codec \<Rightarrow> action \<Rightarrow> world \<Rightarrow> world" where
  "step J (New u hp dv) w = snd (construct J u hp dv w)"
| "step J (Use h) w = snd (use h w)"
| "step J (Close h) w = snd (close h w)"
| "step J (Save h) w = snd (save J h w)"
| "step J (SaveClose h) w = snd (saveClose J h w)"
| "step J (Dispose h) w = snd (asyncDispose J h w)"
| "step J (GetData h) w = snd (data_get h w)"
| "step J (SetData h d) w = snd (data_set h d w)"
| "step J (RootPath p) w = snd (root_path p w)"
| "step J Tick w = tick J w"

fun run :: "codec \<Rightarrow> action list \<Rightarrow> world \<Rightarrow> world" where
  "run J [] w = w"
| "run J (a # as) w = run J as (step J a w)"

inductive reachable :: "codec \<Rightarrow> world \<Rightarrow> bool" for J :: codec where
  start: "reachable J (init_world e)"
| next_step: "reachable J w \<Longrightarrow> reachable J (step J a w)"


section \<open>The read-only view\<close>

text \<open>
  A property key is a string (symbols are not part of the model). The own properties of a
  value: those of an object; the elements of an array, each under the decimal numeral of its
  index, and its \<open>length\<close>; the characters of a string and its \<open>length\<close>.
  \<open>js_get v k\<close> is \<open>v[k]\<close> as far as own properties go, \<open>None\<close> is
  \<open>undefined\<close>; inherited properties (the methods of arrays and strings) are not
  part of the model.
\<close>

type_synonym key = string

fun js_get :: "json \<Rightarrow> key \<Rightarrow> json option" where
  "js_get (JObj kvs) k = map_of kvs k"
| "js_get (JArr xs) k =
     (if k = ''length'' then Some (JNum (int (length xs)))
      else map_option (\<lambda>i. xs ! i) (find (\<lambda>i. show_nat i = k) [0..<length xs]))"
| "js_get (JStr s) k =
     (if k = ''length'' then Some (JNum (int (length s)))
      else map_option (\<lambda>i. JStr [s ! i]) (find (\<lambda>i. show_nat i = k) [0..<length s]))"
| "js_get v k = None"

text \<open>
  The own properties that are not configurable: the \<open>length\<close> of an array, the
  \<open>length\<close> and the characters of a string. Every property of an object that
  \<open>JSON.parse\<close> has made is configurable and writable, and so are the elements of
  an array; the \<open>length\<close> of an array is writable.
\<close>

fun non_configurable :: "json \<Rightarrow> key \<Rightarrow> bool" where
  "non_configurable (JArr xs) k = (k = ''length'')"
| "non_configurable (JStr s) k = (k = ''length'' \<or> find (\<lambda>i. show_nat i = k) [0..<length s] \<noteq> None)"
| "non_configurable v k = False"

fun lookup_path :: "json option \<Rightarrow> key list \<Rightarrow> json option" where
  "lookup_path d [] = d"
| "lookup_path d (k # ks) = (case d of None \<Rightarrow> None | Some v \<Rightarrow> lookup_path (js_get v k) ks)"

text \<open>\<open>typeof data === "object"\<close>, for a value that is not \<open>null\<close>.\<close>

fun is_object :: "json option \<Rightarrow> bool" where
  "is_object (Some (JArr xs)) = True"
| "is_object (Some (JObj kvs)) = True"
| "is_object d = False"

fun is_array :: "json option \<Rightarrow> bool" where
  "is_array (Some (JArr xs)) = True"
| "is_array d = False"

text \<open>
  A proxy holds a reference to its target, not a copy.  The target is an object inside
  the in-memory document of a database or inside the default of a handle, named by where
  it is: the origin and the keys that lead to it.
\<close>

datatype origin = Document string | Default nat

datatype view = Plain "json option" | Proxy origin "key list"

definition deref :: "world \<Rightarrow> origin \<Rightarrow> json option" where
  "deref w org =
     (case org of
        Document u \<Rightarrow> (case databases w u of None \<Rightarrow> None | Some st \<Rightarrow> db_data st)
      | Default h \<Rightarrow> map_option h_default (handles w h))"

text \<open>
  \<open>makeReadonly(data)\<close> for the value found at \<open>ks\<close> under \<open>org\<close>: \<open>null\<close> is returned
  as it is, an object or array is wrapped in a proxy, any other value is returned as it
  is (a JSON document holds no functions).
\<close>

definition makeReadonly :: "world \<Rightarrow> origin \<Rightarrow> key list \<Rightarrow> view" where
  "makeReadonly w org ks =
     (let data = lookup_path (deref w org) ks
      in if data = Some JNull then Plain data
         else if is_object data then Proxy org ks
         else Plain data)"

text \<open>The three traps of the proxy's handler.\<close>

definition proxy_get :: "origin \<Rightarrow> key list \<Rightarrow> key \<Rightarrow> world \<Rightarrow> view" where
  "proxy_get org ks k w = makeReadonly w org (ks @ [k])"

definition proxy_set :: "origin \<Rightarrow> key list \<Rightarrow> key \<Rightarrow> json \<Rightarrow> world \<Rightarrow> bool \<times> world" where
  "proxy_set org ks k v w = (True, w)"

definition proxy_deleteProperty :: "origin \<Rightarrow> key list \<Rightarrow> key \<Rightarrow> world \<Rightarrow> bool \<times> world" where
  "proxy_deleteProperty org ks k w = (True, w)"

text \<open>
  What the language does with \<open>v[k]\<close>, \<open>v[k] = x\<close> and \<open>delete v[k]\<close>, in strict
  code (a module is strict code).  On a proxy it calls the trap.  A \<open>set\<close> or
  \<open>deleteProperty\<close> trap that answers \<open>false\<close> makes the statement a
  \<open>TypeError\<close>; and when the \<open>deleteProperty\<close> trap answers \<open>true\<close> for an own
  property of the target that is not configurable, the proxy throws a \<open>TypeError\<close>
  (ECMAScript, the \<open>[[Delete]]\<close> method of a proxy).  The like checks on the answers of
  \<open>get\<close> and \<open>set\<close> concern properties that are neither configurable nor writable;
  a JSON value has none.  On \<open>null\<close> and \<open>undefined\<close> every property access is a
  \<open>TypeError\<close>; writing a property of another primitive is a \<open>TypeError\<close>, and so
  is deleting one that is not configurable.
\<close>

definition view_get :: "view \<Rightarrow> key \<Rightarrow> world \<Rightarrow> view outcome" where
  "view_get v k w =
     (case v of
        Proxy org ks \<Rightarrow> Returns (proxy_get org ks k w)
      | Plain None \<Rightarrow> Throws TypeError
      | Plain (Some JNull) \<Rightarrow> Throws TypeError
      | Plain (Some p) \<Rightarrow> Returns (Plain (js_get p k)))"

definition view_assign :: "view \<Rightarrow> key \<Rightarrow> json \<Rightarrow> world \<Rightarrow> unit outcome \<times> world" where
  "view_assign v k x w =
     (case v of
        Proxy org ks \<Rightarrow>
          (case proxy_set org ks k x w of
             (ok, w') \<Rightarrow> if ok then (Returns (), w') else (Throws TypeError, w'))
      | Plain p \<Rightarrow> (Throws TypeError, w))"

definition view_delete :: "view \<Rightarrow> key \<Rightarrow> world \<Rightarrow> unit outcome \<times> world" where
  "view_delete v k w =
     (case v of
        Proxy org ks \<Rightarrow>
          (case proxy_deleteProperty org ks k w of
             (ok, w') \<Rightarrow>
               if \<not> ok then (Throws TypeError, w')
               else (case lookup_path (deref w' org) ks of
                       None \<Rightarrow> (Returns (), w')
                     | Some target \<Rightarrow>
                         if non_configurable target k then (Throws TypeError, w')
                         else (Returns (), w')))
      | Plain None \<Rightarrow> (Throws TypeError, w)
      | Plain (Some JNull) \<Rightarrow> (Throws TypeError, w)
      | Plain (Some p) \<Rightarrow> if non_configurable p k then (Throws TypeError, w) else (Returns (), w))"

fun view_path :: "view \<Rightarrow> key list \<Rightarrow> world \<Rightarrow> view outcome" where
  "view_path v [] w = Returns v"
| "view_path v (k # ks) w =
     (case view_get v k w of
        Throws err \<Rightarrow> Throws err
      | Returns v' \<Rightarrow> view_path v' ks w)"

text \<open>The getter \<open>dataReadonly\<close>: no lock is asked for.\<close>

definition dataReadonly :: "nat \<Rightarrow> world \<Rightarrow> view outcome" where
  "dataReadonly h w =
     (case handles w h of
        None \<Rightarrow> Throws TypeError
      | Some x \<Rightarrow>
          (case getData w (h_class x) of
             Inl err \<Rightarrow> Throws err
           | Inr d \<Rightarrow>
               if falsy d then Returns (makeReadonly w (Default h) [])
               else Returns (makeReadonly w (Document (h_class x)) [])))"


section \<open>Concrete inputs\<close>

text \<open>A directory that holds a truncated primary file beside a complete swap file.\<close>

definition e_corrupt :: env where
  "e_corrupt =
     \<lparr>files = [[''./data'', ''a'', ''data.json''] \<mapsto> ''{\"x\":'',
               [''./data'', ''a'', ''data.swp.json''] \<mapsto> ''[1]''],
      dirs = {[''./data''], [''./data'', ''a'']}, denied = {}, oplog = []\<rparr>"


text \<open>The writes among the entries of a log, in order.\<close>

fun writes_of :: "io_event list \<Rightarrow> (path \<times> string) list" where
  "writes_of [] = []"
| "writes_of (Wrote p s # xs) = (p, s) # writes_of xs"
| "writes_of (x # xs) = writes_of xs"

text \<open>
  A process in which one handle of the class \<open>SillyDB.a\<close>, with default \<open>1\<close>, holds the lock and
  has read \<open>data\<close> once; the directory of the database exists and is empty.
\<close>

definition w_ready :: world where
  "w_ready = run text_codec [New ''SillyDB.a'' [] (Num 1), Use 0, Tick, Tick, GetData 0]
     (init_world \<lparr>files = (\<lambda>p. None), dirs = {[''./data''], [''./data'', ''a'']}, denied = {}, oplog = []\<rparr>)"



section \<open>What the queues hold\<close>

text \<open>
  The jobs of one database, read off the state: the calls of \<open>lockDB\<close> that have not
  reached \<open>wait\<close> yet, the jobs whose \<open>lockover\<close> has been called but whose handle has
  not taken the lock yet, the jobs whose handler is about to resume, the jobs whose
  handler is suspended on a lock promise, and the jobs in the list of a queue.
\<close>

fun task_wait :: "string \<Rightarrow> microtask \<Rightarrow> jobid list" where
  "task_wait u (LockDB_wait u' h n) = (if u' = u then [(u', h, n)] else [])"
| "task_wait u t = []"

fun task_locked :: "string \<Rightarrow> microtask \<Rightarrow> jobid list" where
  "task_locked u (Use_locked u' h n) = (if u' = u then [(u', h, n)] else [])"
| "task_locked u t = []"

fun task_done :: "string \<Rightarrow> event \<Rightarrow> microtask \<Rightarrow> jobid list" where
  "task_done u ev (Handler_done u' ev' h n r) = (if u' = u \<and> ev' = ev then [(u', h, n)] else [])"
| "task_done u ev t = []"

definition pend_wait :: "world \<Rightarrow> string \<Rightarrow> jobid list" where
  "pend_wait w u = concat (map (task_wait u) (microtasks w))"

definition pend_locked :: "world \<Rightarrow> string \<Rightarrow> jobid list" where
  "pend_locked w u = concat (map (task_locked u) (microtasks w))"

definition pend_done :: "world \<Rightarrow> string \<Rightarrow> event \<Rightarrow> jobid list" where
  "pend_done w u ev = concat (map (task_done u ev) (microtasks w))"

definition frames :: "world \<Rightarrow> string \<Rightarrow> event \<Rightarrow> jobid list" where
  "frames w u ev = map snd (filter (\<lambda>f. fst f = ev \<and> fst (snd f) = u) (suspended w))"

definition listed :: "world \<Rightarrow> string \<Rightarrow> event \<Rightarrow> jobid list" where
  "listed w u ev = map (\<lambda>j. (u, snd j)) (t_list (transaction_of w u ev))"

fun hist_opened :: "string \<Rightarrow> hist_event \<Rightarrow> jobid list" where
  "hist_opened u (Opened i) = (if fst i = u then [i] else [])"
| "hist_opened u x = []"

fun hist_enqueued :: "string \<Rightarrow> event \<Rightarrow> hist_event \<Rightarrow> jobid list" where
  "hist_enqueued u ev (Enqueued ev' i) = (if fst i = u \<and> ev' = ev then [i] else [])"
| "hist_enqueued u ev x = []"

fun hist_started :: "string \<Rightarrow> event \<Rightarrow> hist_event \<Rightarrow> jobid list" where
  "hist_started u ev (Started ev' i) = (if fst i = u \<and> ev' = ev then [i] else [])"
| "hist_started u ev x = []"

fun hist_locked :: "string \<Rightarrow> hist_event \<Rightarrow> jobid list" where
  "hist_locked u (Locked i) = (if fst i = u then [i] else [])"
| "hist_locked u x = []"

text \<open>The same for the instrumentation: what happened so far, for one database.\<close>

definition opened :: "world \<Rightarrow> string \<Rightarrow> jobid list" where
  "opened w u = concat (map (hist_opened u) (history w))"

definition enqueued :: "world \<Rightarrow> string \<Rightarrow> event \<Rightarrow> jobid list" where
  "enqueued w u ev = concat (map (hist_enqueued u ev) (history w))"

definition started :: "world \<Rightarrow> string \<Rightarrow> event \<Rightarrow> jobid list" where
  "started w u ev = concat (map (hist_started u ev) (history w))"

definition locked :: "world \<Rightarrow> string \<Rightarrow> jobid list" where
  "locked w u = concat (map (hist_locked u) (history w))"

text \<open>
  The invariant.  The \<open>unlock\<close> queue of a database is idle; or it has started a job and
  the handle has not taken the lock yet; or the handle holds the lock; or the lock has
  been released and the handler is about to resume.  Only in the third phase is a handle
  of the class locked, and then it is the job's own handle.
\<close>

definition class_handles :: "world \<Rightarrow> string \<Rightarrow> nat \<Rightarrow> handle option" where
  "class_handles w u h =
     (case handles w h of None \<Rightarrow> None | Some x \<Rightarrow> if h_class x = u then Some x else None)"

definition nolock :: "world \<Rightarrow> string \<Rightarrow> bool" where
  "nolock w u = (\<forall>h x. class_handles w u h = Some x \<longrightarrow> \<not> h_locking x)"

definition unheld :: "world \<Rightarrow> jobid \<Rightarrow> bool" where
  "unheld w i = (\<forall>h x. class_handles w (fst i) h = Some x \<longrightarrow> h_unlockDB x \<noteq> Resolver i)"

definition holder :: "world \<Rightarrow> jobid \<Rightarrow> bool" where
  "holder w i =
     ((\<exists>x. class_handles w (fst i) (fst (snd i)) = Some x \<and> h_locking x \<and>
           h_unlockDB x = Resolver i) \<and>
      (\<forall>h x. class_handles w (fst i) h = Some x \<and> h_locking x \<longrightarrow> h = fst (snd i)))"

definition lock_phase :: "world \<Rightarrow> string \<Rightarrow> bool" where
  "lock_phase w u =
     ((frames w u unlock = [] \<and> pend_locked w u = [] \<and> pend_done w u unlock = [] \<and>
       t_uuid (transaction_of w u unlock) = None \<and> t_list (transaction_of w u unlock) = [] \<and>
       nolock w u)
    \<or> (\<exists>i. frames w u unlock = [i] \<and> pend_locked w u = [i] \<and> pend_done w u unlock = [] \<and>
          t_uuid (transaction_of w u unlock) \<noteq> None \<and> i \<notin> resolved w \<and> nolock w u \<and> unheld w i)
    \<or> (\<exists>i. frames w u unlock = [i] \<and> pend_locked w u = [] \<and> pend_done w u unlock = [] \<and>
          t_uuid (transaction_of w u unlock) \<noteq> None \<and> i \<notin> resolved w \<and> holder w i)
    \<or> (\<exists>i. frames w u unlock = [] \<and> pend_locked w u = [] \<and> pend_done w u unlock = [i] \<and>
          t_uuid (transaction_of w u unlock) \<noteq> None \<and> nolock w u))"

text \<open>The \<open>write_end\<close> queue has no suspended handler: a write completes at once.\<close>

definition write_phase :: "world \<Rightarrow> string \<Rightarrow> bool" where
  "write_phase w u =
     (frames w u write_end = [] \<and>
      ((pend_done w u write_end = [] \<and> t_uuid (transaction_of w u write_end) = None \<and>
        t_list (transaction_of w u write_end) = [])
     \<or> (\<exists>i. pend_done w u write_end = [i] \<and> t_uuid (transaction_of w u write_end) \<noteq> None)))"

text \<open>Each queue holds its own kind of job.\<close>

definition kinds_ok :: "world \<Rightarrow> string \<Rightarrow> bool" where
  "kinds_ok w u =
     ((\<forall>j \<in> set (t_list (transaction_of w u unlock)). fst j = LockTodo) \<and>
      (\<forall>j \<in> set (t_list (transaction_of w u write_end)). fst j = WriteTodo))"

text \<open>
  The jobs that wait for the lock are distinct, their lock promises are unresolved and
  no handle holds their resolver; every serial number in use is below the next one.
\<close>

definition waiting :: "world \<Rightarrow> string \<Rightarrow> jobid list" where
  "waiting w u = listed w u unlock @ pend_wait w u"

definition chain_ok :: "world \<Rightarrow> string \<Rightarrow> bool" where
  "chain_ok w u =
     (distinct (frames w u unlock @ waiting w u) \<and>
      (\<forall>i \<in> set (waiting w u). i \<notin> resolved w \<and> unheld w i) \<and>
      (\<forall>i \<in> set (frames w u unlock @ pend_locked w u @ waiting w u).
          fst i = u \<and> snd (snd i) < fresh w \<and> (\<exists>x. class_handles w u (fst (snd i)) = Some x)) \<and>
      (pend_wait w u \<noteq> [] \<longrightarrow> databases w u \<noteq> None))"

text \<open>A resolver kept by a handle that is not locked has been called already.\<close>

definition stale_ok :: "world \<Rightarrow> bool" where
  "stale_ok w =
     (\<forall>h x i. handles w h = Some x \<and> h_unlockDB x = Resolver i \<longrightarrow>
        fst i = h_class x \<and> snd (snd i) < fresh w \<and> (\<not> h_locking x \<longrightarrow> i \<in> resolved w))"

definition fresh_ok :: "world \<Rightarrow> bool" where
  "fresh_ok w =
     ((\<forall>h x. handles w h = Some x \<longrightarrow> h < fresh w \<and> databases w (h_class x) \<noteq> None) \<and>
      (\<forall>i \<in> resolved w. snd (snd i) < fresh w))"

text \<open>The order of the calls is the order of the queue.\<close>

definition fifo :: "world \<Rightarrow> string \<Rightarrow> bool" where
  "fifo w u =
     (enqueued w u unlock = started w u unlock @ listed w u unlock \<and>
      enqueued w u write_end = started w u write_end @ listed w u write_end \<and>
      opened w u = enqueued w u unlock @ pend_wait w u \<and>
      started w u unlock = locked w u @ pend_locked w u)"

definition per_uid :: "world \<Rightarrow> string \<Rightarrow> bool" where
  "per_uid w u = (lock_phase w u \<and> write_phase w u \<and> kinds_ok w u \<and> chain_ok w u \<and> fifo w u)"

definition invariant :: "world \<Rightarrow> bool" where
  "invariant w = ((\<forall>u. per_uid w u) \<and> stale_ok w \<and> fresh_ok w)"

text \<open>The step is a call of \<open>close\<close> on the handle \<open>h\<close>.\<close>

fun closes :: "action \<Rightarrow> world \<Rightarrow> nat \<Rightarrow> bool" where
  "closes (Close h') w h = (h' = h)"
| "closes Tick w h = (case microtasks w of SaveClose_close h' # ts \<Rightarrow> h' = h | _ \<Rightarrow> False)"
| "closes a w h = False"


text \<open>Two handles of one class call \<open>use\<close>, one after the other, on an empty disk.\<close>

definition e_empty :: env where
  "e_empty = \<lparr>files = (\<lambda>p. None), dirs = {}, denied = {}, oplog = []\<rparr>"

definition w_two :: world where
  "w_two = run text_codec
     [New ''SillyDB.a'' [] (Num 1), New ''SillyDB.a'' [] (Num 2), Use 0, Use 1, Tick, Tick, Tick]
     (init_world e_empty)"

subsection \<open>Runs that close, reopen and read\<close>

definition w_closed :: world where
  "w_closed = snd (close 0 w_ready)"




subsection \<open>Default values with and without a JSON form\<close>

text \<open>
  \<open>circular h st v\<close>: following properties and elements from \<open>v\<close>, one comes back to an
  object that lies on the way (\<open>st\<close> holds the objects entered so far).
\<close>

inductive circular :: "heap \<Rightarrow> nat list \<Rightarrow> jsval \<Rightarrow> bool" for h :: heap where
  circ_seen: "a \<in> set st \<Longrightarrow> circular h st (Ref a)"
| circ_element: "a \<notin> set st \<Longrightarrow> map_of h a = Some (Array xs) \<Longrightarrow> x \<in> set xs \<Longrightarrow>
            circular h (a # st) x \<Longrightarrow> circular h st (Ref a)"
| circ_property: "a \<notin> set st \<Longrightarrow> map_of h a = Some (Object kvs) \<Longrightarrow> kv \<in> set kvs \<Longrightarrow>
            circular h (a # st) (snd kv) \<Longrightarrow> circular h st (Ref a)"



text \<open>
  A process whose one handle holds the lock on a document with a list in it:
  \<open>{"l": [1, 2], "n": 3}\<close>.
\<close>

definition w_list :: world where
  "w_list = run text_codec
     [New ''SillyDB.a'' [(0, Object [(''l'', Ref 1), (''n'', Num 3)]), (1, Array [Num 1, Num 2])] (Ref 0),
      Use 0, Tick, Tick, GetData 0]
     (init_world e_empty)"

section \<open>The file system and the load\<close>

lemma writeFileSync_ok:
  "writeFileSync e p dat = (None, e') \<Longrightarrow>
     \<exists>s. dat = Some s \<and> p \<notin> denied e \<and>
         e' = e\<lparr>files := (files e)(p \<mapsto> s), oplog := oplog e @ [Wrote p s]\<rparr>"
  by (auto simp: writeFileSync_def split: option.splits if_splits)

lemma writeFileSync_fail:
  "writeFileSync e p dat = (Some err, e') \<Longrightarrow> e' = e"
  by (auto simp: writeFileSync_def split: option.splits if_splits)

lemma mkdirSync_ok:
  "mkdirSync e d = (None, e') \<Longrightarrow>
     e' = e\<lparr>dirs := dirs e \<union> set (ancestors d), oplog := oplog e @ [MadeDir d]\<rparr>"
  by (auto simp: mkdirSync_def split: if_splits)

lemma mkdirSync_fail:
  "mkdirSync e d = (Some err, e') \<Longrightarrow> e' = e"
  by (auto simp: mkdirSync_def split: if_splits)

text \<open>
  C6.  \<open>safeReadDB\<close> follows the fallback chain.  A file is good for a document when it
  can be read and its text parses to that document, bad when it is missing, cannot be
  read or does not parse.  A good primary file gives its document; a bad primary file
  beside a good swap file gives the swap file's document; two bad files give
  \<open>undefined\<close>.  No case raises: the result is a value in each.
\<close>

theorem safeReadDB_fallback_chain:
  "(let P = path_join (getPath root uid @ [''data.json'']);
        S = path_join (getPath root uid @ [''data.swp.json'']);
        bad = (\<lambda>p. p \<in> denied e \<or> files e p = None \<or> (\<exists>s. files e p = Some s \<and> parse J s = None));
        good = (\<lambda>p d. p \<notin> denied e \<and> (\<exists>s. files e p = Some s \<and> parse J s = Some d))
    in (\<forall>d. good P d \<longrightarrow> safeReadDB J e root uid = Some d)
     \<and> (\<forall>d. bad P \<and> good S d \<longrightarrow> safeReadDB J e root uid = Some d)
     \<and> (bad P \<and> bad S \<longrightarrow> safeReadDB J e root uid = None))"
  by (auto simp: Let_def safeReadDB_def read_json_def readFileSync_def JSON_parse_def
           split: option.splits sum.splits)

theorem safeReadDB_fallback_chain_witness:
  "safeReadDB text_codec e_corrupt ''./data'' ''SillyDB.a'' = Some (JArr [JNum 1])"
proof -
  let ?P = "path_join (getPath ''./data'' ''SillyDB.a'' @ [''data.json''])"
  let ?S = "path_join (getPath ''./data'' ''SillyDB.a'' @ [''data.swp.json''])"
  have p1: "files e_corrupt ?P = Some ''{\"x\":''" by code_simp
  have p2: "parse text_codec ''{\"x\":'' = None" by code_simp
  have s1: "files e_corrupt ?S = Some ''[1]''" by code_simp
  have s2: "parse text_codec ''[1]'' = Some (JArr [JNum 1])" by code_simp
  have s3: "?S \<notin> denied e_corrupt" by code_simp
  from safeReadDB_fallback_chain [of "''./data''" "''SillyDB.a''" e_corrupt text_codec]
    p1 p2 s1 s2 s3
  show ?thesis unfolding Let_def by blast
qed

lemma writes_of_append [simp]: "writes_of (xs @ ys) = writes_of xs @ writes_of ys"
  by (induction xs rule: writes_of.induct) auto




lemma writeToPath_log:
  assumes "writeToPath J e dir name dat = (r, e')"
  shows "\<exists>new. oplog e' = oplog e @ new \<and> 1 \<le> count_list new Serialized \<and> count_list new Serialized \<le> 2 \<and>
       (case r of
          None \<Rightarrow> (\<exists>d. dat = Some d \<and> writes_of new = [(path_join (dir @ [name]), stringify J d)])
        | Some err \<Rightarrow> writes_of new = [])"
proof -
  let ?p = "path_join (dir @ [name])"
  obtain r1 e1 where a1: "writeFileSync (serialized e) ?p (JSON_stringify J dat) = (r1, e1)" by force
  show ?thesis
  proof (cases r1)
    case None
    with a1 assms have "r = None" "e' = e1" by (auto simp: writeToPath_def Let_def)
    moreover from a1 None obtain s where "JSON_stringify J dat = Some s"
      "e1 = (serialized e)\<lparr>files := (files (serialized e))(?p \<mapsto> s), oplog := oplog (serialized e) @ [Wrote ?p s]\<rparr>"
      by (auto dest!: writeFileSync_ok)
    ultimately show ?thesis
      by (intro exI [of _ "[Serialized, Wrote ?p s]"]) (auto simp: serialized_def JSON_stringify_def)
  next
    case (Some err1)
    with a1 have e1: "e1 = serialized e" by (auto dest: writeFileSync_fail)
    obtain r2 e2 where a2: "mkdirSync e1 dir = (r2, e2)" by force
    show ?thesis
    proof (cases r2)
      case (Some err2)
      with a2 have "e2 = e1" by (auto dest: mkdirSync_fail)
      moreover from a1 a2 \<open>r1 = Some err1\<close> Some assms have "r = Some err2" "e' = e2"
        by (auto simp: writeToPath_def Let_def)
      ultimately show ?thesis using e1
        by (intro exI [of _ "[Serialized]"]) (auto simp: serialized_def)
    next
      case None
      with a2 have e2: "e2 = e1\<lparr>dirs := dirs e1 \<union> set (ancestors dir), oplog := oplog e1 @ [MadeDir dir]\<rparr>"
        by (auto dest: mkdirSync_ok)
      from a1 a2 \<open>r1 = Some err1\<close> None assms
      have a3: "writeFileSync (serialized e2) ?p (JSON_stringify J dat) = (r, e')"
        by (auto simp: writeToPath_def Let_def)
      show ?thesis
      proof (cases r)
        case (Some err3)
        with a3 have "e' = serialized e2" by (auto dest: writeFileSync_fail)
        then show ?thesis using e1 e2 Some
          by (intro exI [of _ "[Serialized, MadeDir dir, Serialized]"]) (auto simp: serialized_def)
      next
        case None
        with a3 obtain s where "JSON_stringify J dat = Some s"
          "e' = (serialized e2)\<lparr>files := (files (serialized e2))(?p \<mapsto> s), oplog := oplog (serialized e2) @ [Wrote ?p s]\<rparr>"
          by (auto dest!: writeFileSync_ok)
        then show ?thesis using e1 e2 None
          by (intro exI [of _ "[Serialized, MadeDir dir, Serialized, Wrote ?p s]"])
             (auto simp: serialized_def JSON_stringify_def)
      qed
    qed
  qed
qed

lemma write_files_log:
  assumes "write_files J e dir dat = (r, e')"
  shows "\<exists>new. oplog e' = oplog e @ new \<and> 1 \<le> count_list new Serialized \<and> count_list new Serialized \<le> 4 \<and>
       (case dat of
          None \<Rightarrow> r = ''failed'' \<and> writes_of new = []
        | Some d \<Rightarrow>
            (r = ''success'' \<and> 2 \<le> count_list new Serialized \<and>
             writes_of new = [(path_join (dir @ [''data.swp.json'']), stringify J d),
                              (path_join (dir @ [''data.json'']), stringify J d)])
          \<or> (r = ''failed'' \<and>
              (writes_of new = [] \<or> writes_of new = [(path_join (dir @ [''data.swp.json'']), stringify J d)])))"
proof -
  obtain r1 e1 where w1: "writeToPath J e dir ''data.swp.json'' dat = (r1, e1)" by force
  from writeToPath_log [OF w1] obtain n1 where
    n1: "oplog e1 = oplog e @ n1" "1 \<le> count_list n1 Serialized" "count_list n1 Serialized \<le> 2"
      "(case r1 of None \<Rightarrow> (\<exists>d. dat = Some d \<and> writes_of n1 = [(path_join (dir @ [''data.swp.json'']), stringify J d)])
        | Some err \<Rightarrow> writes_of n1 = [])" by blast
  show ?thesis
  proof (cases r1)
    case (Some err)
    with w1 assms have "r = ''failed''" "e' = e1" by (auto simp: write_files_def)
    with n1 Some show ?thesis by (cases dat) auto
  next
    case None
    obtain r2 e2 where w2: "writeToPath J e1 dir ''data.json'' dat = (r2, e2)" by force
    from writeToPath_log [OF w2] obtain n2 where
      n2: "oplog e2 = oplog e1 @ n2" "1 \<le> count_list n2 Serialized" "count_list n2 Serialized \<le> 2"
        "(case r2 of None \<Rightarrow> (\<exists>d. dat = Some d \<and> writes_of n2 = [(path_join (dir @ [''data.json'']), stringify J d)])
          | Some err \<Rightarrow> writes_of n2 = [])" by blast
    from None w1 w2 assms have r: "e' = e2" "r = (case r2 of None \<Rightarrow> ''success'' | Some x \<Rightarrow> ''failed'')"
      by (auto simp: write_files_def split: option.splits)
    have log: "oplog e' = oplog e @ (n1 @ n2)" using n1 n2 r by simp
    from None n1 obtain d where d: "dat = Some d" "writes_of n1 = [(path_join (dir @ [''data.swp.json'']), stringify J d)]"
      by auto
    show ?thesis
      apply (rule exI [of _ "n1 @ n2"])
      using log n1(2,3) n2 d r by (cases r2) auto
  qed
qed

lemma root_path_None [simp]: "root_path None w = (w_path w, w)"
  by (simp add: root_path_def)

lemma writeDB_unfold:
  "getData w u = Inr d \<Longrightarrow>
   writeDB J u w = (fst (write_files J (disk w) (getPath (w_path w) u) d),
                    w\<lparr>disk := snd (write_files J (disk w) (getPath (w_path w) u) d)\<rparr>)"
  by (simp add: writeDB_def split: prod.splits)

lemma writeDB_log:
  assumes "getData w u = Inr d" and "writeDB J u w = (r, w')"
  shows "\<exists>new. oplog (disk w') = oplog (disk w) @ new \<and>
           1 \<le> count_list new Serialized \<and> count_list new Serialized \<le> 4 \<and>
           (case d of
              None \<Rightarrow> r = ''failed'' \<and> writes_of new = []
            | Some D \<Rightarrow>
                (r = ''success'' \<and> 2 \<le> count_list new Serialized \<and>
                 writes_of new =
                   [(path_join (getPath (w_path w) u @ [''data.swp.json'']), stringify J D),
                    (path_join (getPath (w_path w) u @ [''data.json'']), stringify J D)])
              \<or> (r = ''failed'' \<and>
                  (writes_of new = [] \<or>
                   writes_of new =
                     [(path_join (getPath (w_path w) u @ [''data.swp.json'']), stringify J D)])))"
proof -
  from assms have "write_files J (disk w) (getPath (w_path w) u) d = (r, disk w')"
    by (auto simp: writeDB_unfold)
  from write_files_log [OF this] show ?thesis .
qed

section \<open>Saving\<close>

text \<open>
  C5, as amended.  Every run of \<open>writeDB\<close> writes the swap file before the primary file,
  and the text written to the primary file is the text written to the swap file.  The
  entries it adds to the log hold no write at all, or the write of the swap file alone,
  or the write of the swap file followed by the write of the primary file with the same
  text; the result is \<open>"success"\<close> exactly in the last case.  The document is serialised
  once for each attempt to write, between one and four times in a run and at least twice
  in a run that succeeds, not once.
\<close>

theorem writeDB_swap_then_primary:
  assumes "getData w u = Inr d" and "writeDB J u w = (r, w')"
  shows "\<exists>new. oplog (disk w') = oplog (disk w) @ new \<and>
           1 \<le> count_list new Serialized \<and> count_list new Serialized \<le> 4 \<and>
           (case d of
              None \<Rightarrow> r = ''failed'' \<and> writes_of new = []
            | Some D \<Rightarrow>
                (r = ''success'' \<and> 2 \<le> count_list new Serialized \<and>
                 writes_of new =
                   [(path_join (getPath (w_path w) u @ [''data.swp.json'']), stringify J D),
                    (path_join (getPath (w_path w) u @ [''data.json'']), stringify J D)])
              \<or> (r = ''failed'' \<and>
                  (writes_of new = [] \<or>
                   writes_of new =
                     [(path_join (getPath (w_path w) u @ [''data.swp.json'']), stringify J D)])))"
  using assms by (rule writeDB_log)

theorem writeDB_swap_then_primary_witness:
  "fst (writeDB text_codec ''SillyDB.a'' w_ready) = ''success'' \<and>
   writes_of (oplog (disk (snd (writeDB text_codec ''SillyDB.a'' w_ready)))) =
     [([''./data'', ''a'', ''data.swp.json''], ''1''), ([''./data'', ''a'', ''data.json''], ''1'')]"
proof -
  have g: "getData w_ready ''SillyDB.a'' = Inr (Some (JNum 1))" by code_simp
  have l: "oplog (disk w_ready) = []" by code_simp
  have r: "fst (writeDB text_codec ''SillyDB.a'' w_ready) = ''success''" by code_simp
  have p: "path_join (getPath (w_path w_ready) ''SillyDB.a'' @ [''data.swp.json'']) = [''./data'', ''a'', ''data.swp.json'']"
          "path_join (getPath (w_path w_ready) ''SillyDB.a'' @ [''data.json'']) = [''./data'', ''a'', ''data.json'']"
          "stringify text_codec (JNum 1) = ''1''"
    by code_simp+
  have eq: "writeDB text_codec ''SillyDB.a'' w_ready =
      (''success'', snd (writeDB text_codec ''SillyDB.a'' w_ready))"
    using r by (metis prod.collapse)
  from writeDB_swap_then_primary [OF g eq] l p r
  show ?thesis by auto
qed

text \<open>
  C5 as stated fails: a save that succeeds at the first attempt calls \<open>JSON.stringify\<close>
  twice, once before each of the two writes.
\<close>

theorem writeDB_serializes_twice:
  "fst (writeDB text_codec ''SillyDB.a'' w_ready) = ''success'' \<and>
   oplog (disk (snd (writeDB text_codec ''SillyDB.a'' w_ready))) =
     [Serialized, Wrote [''./data'', ''a'', ''data.swp.json''] ''1'',
      Serialized, Wrote [''./data'', ''a'', ''data.json''] ''1'']"
  by code_simp




section \<open>The root path\<close>




section \<open>The invariant of the queues\<close>

lemma invariant_init: "invariant (init_world e)"
  by (simp add: invariant_def per_uid_def class_handles_def init_world_def lock_phase_def write_phase_def kinds_ok_def
        chain_ok_def fifo_def stale_ok_def fresh_ok_def frames_def pend_locked_def pend_done_def
        pend_wait_def transaction_of_def nolock_def waiting_def listed_def enqueued_def
        started_def opened_def locked_def)

subsection \<open>The fields after each primitive operation\<close>

lemma upd_transaction_fields [simp]:
  "microtasks (upd_transaction u ev f w) = microtasks w"
  "suspended (upd_transaction u ev f w) = suspended w"
  "history (upd_transaction u ev f w) = history w"
  "handles (upd_transaction u ev f w) = handles w"
  "resolved (upd_transaction u ev f w) = resolved w"
  "fresh (upd_transaction u ev f w) = fresh w"
  "disk (upd_transaction u ev f w) = disk w"
  "w_path (upd_transaction u ev f w) = w_path w"
  "awaiting_save (upd_transaction u ev f w) = awaiting_save w"
  "(databases (upd_transaction u ev f w) u' = None) = (databases w u' = None)"
  by (auto simp: upd_transaction_def split: option.splits)

lemma transaction_of_upd [simp]:
  "transaction_of (upd_transaction u0 ev0 f w) u ev =
     (if u = u0 \<and> ev = ev0 \<and> databases w u \<noteq> None then f (transaction_of w u ev)
      else transaction_of w u ev)"
  by (auto simp: upd_transaction_def transaction_of_def split: option.splits)

lemma enqueue_microtask_fields [simp]:
  "microtasks (enqueue_microtask t w) = microtasks w @ [t]"
  "suspended (enqueue_microtask t w) = suspended w"
  "history (enqueue_microtask t w) = history w"
  "handles (enqueue_microtask t w) = handles w"
  "resolved (enqueue_microtask t w) = resolved w"
  "fresh (enqueue_microtask t w) = fresh w"
  "databases (enqueue_microtask t w) = databases w"
  "transaction_of (enqueue_microtask t w) = transaction_of w"
  by (auto simp: enqueue_microtask_def transaction_of_def fun_eq_iff)

lemma record_event_fields [simp]:
  "microtasks (record_event x w) = microtasks w"
  "suspended (record_event x w) = suspended w"
  "history (record_event x w) = history w @ [x]"
  "handles (record_event x w) = handles w"
  "resolved (record_event x w) = resolved w"
  "fresh (record_event x w) = fresh w"
  "databases (record_event x w) = databases w"
  "transaction_of (record_event x w) = transaction_of w"
  by (auto simp: record_event_def transaction_of_def fun_eq_iff)

lemma writeDB_fields [simp]:
  "microtasks (snd (writeDB J u w)) = microtasks w"
  "suspended (snd (writeDB J u w)) = suspended w"
  "history (snd (writeDB J u w)) = history w"
  "handles (snd (writeDB J u w)) = handles w"
  "resolved (snd (writeDB J u w)) = resolved w"
  "fresh (snd (writeDB J u w)) = fresh w"
  "databases (snd (writeDB J u w)) = databases w"
  "transaction_of (snd (writeDB J u w)) = transaction_of w"
  by (auto simp: writeDB_def transaction_of_def fun_eq_iff split: sum.splits prod.splits)

lemma deliver_fields [simp]:
  "suspended (deliver i r w) = suspended w"
  "history (deliver i r w) = history w"
  "handles (deliver i r w) = handles w"
  "resolved (deliver i r w) = resolved w"
  "fresh (deliver i r w) = fresh w"
  "databases (deliver i r w) = databases w"
  "transaction_of (deliver i r w) = transaction_of w"
  by (auto simp: deliver_def transaction_of_def fun_eq_iff)

lemma task_SaveClose [simp]:
  "concat (map (task_wait u) (map (\<lambda>a. SaveClose_close (g a)) xs)) = []"
  "concat (map (task_locked u) (map (\<lambda>a. SaveClose_close (g a)) xs)) = []"
  "concat (map (task_done u ev) (map (\<lambda>a. SaveClose_close (g a)) xs)) = []"
  by (induction xs) auto

lemma deliver_pend [simp]:
  "pend_wait (deliver i r w) u = pend_wait w u"
  "pend_locked (deliver i r w) u = pend_locked w u"
  "pend_done (deliver i r w) u ev = pend_done w u ev"
  by (simp_all add: deliver_def pend_wait_def pend_locked_def pend_done_def)

text \<open>Each projection depends on one field.\<close>

lemma proj_cong:
  "microtasks w' = microtasks w \<Longrightarrow> pend_wait w' u = pend_wait w u"
  "microtasks w' = microtasks w \<Longrightarrow> pend_locked w' u = pend_locked w u"
  "microtasks w' = microtasks w \<Longrightarrow> pend_done w' u ev = pend_done w u ev"
  "suspended w' = suspended w \<Longrightarrow> frames w' u ev = frames w u ev"
  "history w' = history w \<Longrightarrow> opened w' u = opened w u"
  "history w' = history w \<Longrightarrow> enqueued w' u ev = enqueued w u ev"
  "history w' = history w \<Longrightarrow> started w' u ev = started w u ev"
  "history w' = history w \<Longrightarrow> locked w' u = locked w u"
  "transaction_of w' = transaction_of w \<Longrightarrow> listed w' u ev = listed w u ev"
  "class_handles w' u = class_handles w u \<Longrightarrow> nolock w' u = nolock w u"
  "class_handles w' (fst i) = class_handles w (fst i) \<Longrightarrow> unheld w' i = unheld w i"
  "class_handles w' (fst i) = class_handles w (fst i) \<Longrightarrow> holder w' i = holder w i"
  by (simp_all add: pend_wait_def pend_locked_def pend_done_def frames_def opened_def
        enqueued_def started_def locked_def listed_def nolock_def unheld_def holder_def)


lemma transaction_of_updates [simp]:
  "transaction_of (w\<lparr>suspended := a\<rparr>) = transaction_of w"
  "transaction_of (w\<lparr>microtasks := b\<rparr>) = transaction_of w"
  "transaction_of (w\<lparr>fresh := c\<rparr>) = transaction_of w"
  "transaction_of (w\<lparr>handles := d\<rparr>) = transaction_of w"
  "transaction_of (w\<lparr>resolved := e\<rparr>) = transaction_of w"
  "transaction_of (w\<lparr>awaiting_save := f\<rparr>) = transaction_of w"
  "transaction_of (w\<lparr>history := g\<rparr>) = transaction_of w"
  "transaction_of (w\<lparr>disk := k\<rparr>) = transaction_of w"
  "transaction_of (w\<lparr>w_path := l\<rparr>) = transaction_of w"
  "transaction_of (w\<lparr>delivered := m\<rparr>) = transaction_of w"
  by (simp_all add: transaction_of_def fun_eq_iff)

subsection \<open>The event handler, case by case\<close>

lemma on_event_unregistered:
  "databases w u = None \<Longrightarrow> on_event J u ev w = w"
  by (simp add: on_event_def Let_def upd_transaction_def transaction_of_def)

lemma on_event_empty:
  assumes "databases w u \<noteq> None" and "t_list (transaction_of w u ev) = []"
  shows "on_event J u ev w = upd_transaction u ev (\<lambda>t. t\<lparr>t_uuid := None\<rparr>) w"
  using assms by (simp add: on_event_def Let_def)

lemma on_event_lock:
  assumes "databases w u \<noteq> None" and "t_list (transaction_of w u ev) = (LockTodo, h, n) # rest"
    and "(u, h, n) \<notin> resolved w"
  shows "microtasks (on_event J u ev w) = microtasks w @ [Use_locked u h n]"
    and "suspended (on_event J u ev w) = suspended w @ [(ev, (u, h, n))]"
    and "history (on_event J u ev w) = history w @ [Started ev (u, h, n)]"
    and "handles (on_event J u ev w) = handles w"
    and "resolved (on_event J u ev w) = resolved w"
    and "fresh (on_event J u ev w) = fresh w"
    and "(databases (on_event J u ev w) u' = None) = (databases w u' = None)"
    and "transaction_of (on_event J u ev w) u' ev' =
           (if u' = u \<and> ev' = ev then \<lparr>t_list = rest, t_uuid = Some h\<rparr> else transaction_of w u' ev')"
  using assms by (simp_all add: on_event_def Let_def run_todo_def)

lemma on_event_write:
  assumes "databases w u \<noteq> None" and "t_list (transaction_of w u ev) = (WriteTodo, h, n) # rest"
  shows "\<exists>r. microtasks (on_event J u ev w) = microtasks w @ [Handler_done u ev h n (Some r)]"
    and "suspended (on_event J u ev w) = suspended w"
    and "history (on_event J u ev w) = history w @ [Started ev (u, h, n)]"
    and "handles (on_event J u ev w) = handles w"
    and "resolved (on_event J u ev w) = resolved w"
    and "fresh (on_event J u ev w) = fresh w"
    and "(databases (on_event J u ev w) u' = None) = (databases w u' = None)"
    and "transaction_of (on_event J u ev w) u' ev' =
           (if u' = u \<and> ev' = ev then \<lparr>t_list = rest, t_uuid = Some h\<rparr> else transaction_of w u' ev')"
  using assms by (simp_all add: on_event_def Let_def run_todo_def case_prod_beta)


subsection \<open>\<open>wait\<close>, idle and busy\<close>

lemma wait_busy:
  assumes "t_uuid (transaction_of w u ev) \<noteq> None"
  shows "wait J u ev h td n w =
         record_event (Enqueued ev (u, h, n))
           (upd_transaction u ev (\<lambda>t. t\<lparr>t_list := t_list t @ [(td, h, n)]\<rparr>) w)"
proof -
  from assms have "databases w u \<noteq> None" by (auto simp: transaction_of_def split: option.splits)
  with assms show ?thesis by (auto simp: wait_def Let_def)
qed

lemma wait_idle_lock:
  assumes "databases w u \<noteq> None" and "t_uuid (transaction_of w u ev) = None"
    and "t_list (transaction_of w u ev) = []" and "(u, h, n) \<notin> resolved w"
  shows "microtasks (wait J u ev h LockTodo n w) = microtasks w @ [Use_locked u h n]"
    and "suspended (wait J u ev h LockTodo n w) = suspended w @ [(ev, (u, h, n))]"
    and "history (wait J u ev h LockTodo n w) =
           history w @ [Enqueued ev (u, h, n), Started ev (u, h, n)]"
    and "handles (wait J u ev h LockTodo n w) = handles w"
    and "resolved (wait J u ev h LockTodo n w) = resolved w"
    and "fresh (wait J u ev h LockTodo n w) = fresh w"
    and "(databases (wait J u ev h LockTodo n w) u' = None) = (databases w u' = None)"
    and "transaction_of (wait J u ev h LockTodo n w) u' ev' =
           (if u' = u \<and> ev' = ev then \<lparr>t_list = [], t_uuid = Some h\<rparr> else transaction_of w u' ev')"
proof -
  let ?w2 = "record_event (Enqueued ev (u, h, n))
           (upd_transaction u ev (\<lambda>t. t\<lparr>t_list := t_list t @ [(LockTodo, h, n)]\<rparr>) w)"
  have w: "wait J u ev h LockTodo n w = on_event J u ev ?w2"
    using assms by (simp add: wait_def Let_def)
  have a: "databases ?w2 u \<noteq> None" using assms by simp
  have b: "t_list (transaction_of ?w2 u ev) = (LockTodo, h, n) # []" using assms by simp
  have c: "(u, h, n) \<notin> resolved ?w2" using assms by simp
  note f = on_event_lock [OF a b c, of J]
  show "microtasks (wait J u ev h LockTodo n w) = microtasks w @ [Use_locked u h n]"
    and "suspended (wait J u ev h LockTodo n w) = suspended w @ [(ev, (u, h, n))]"
    and "history (wait J u ev h LockTodo n w) =
           history w @ [Enqueued ev (u, h, n), Started ev (u, h, n)]"
    and "handles (wait J u ev h LockTodo n w) = handles w"
    and "resolved (wait J u ev h LockTodo n w) = resolved w"
    and "fresh (wait J u ev h LockTodo n w) = fresh w"
    and "(databases (wait J u ev h LockTodo n w) u' = None) = (databases w u' = None)"
    and "transaction_of (wait J u ev h LockTodo n w) u' ev' =
           (if u' = u \<and> ev' = ev then \<lparr>t_list = [], t_uuid = Some h\<rparr> else transaction_of w u' ev')"
    unfolding w by (simp_all add: f)
qed

lemmas proj_defs = frames_def pend_locked_def pend_done_def pend_wait_def listed_def
        enqueued_def started_def opened_def locked_def

lemma uid_of_proj:
  "i \<in> set (frames w u ev) \<Longrightarrow> fst i = u"
  "i \<in> set (pend_wait w u) \<Longrightarrow> fst i = u"
  "i \<in> set (pend_locked w u) \<Longrightarrow> fst i = u"
  "i \<in> set (pend_done w u ev) \<Longrightarrow> fst i = u"
  "i \<in> set (listed w u ev) \<Longrightarrow> fst i = u"
proof -
  show "i \<in> set (frames w u ev) \<Longrightarrow> fst i = u" by (auto simp: frames_def)
  show "i \<in> set (listed w u ev) \<Longrightarrow> fst i = u" by (auto simp: listed_def)
  have a: "i \<in> set (task_wait u t) \<Longrightarrow> fst i = u" for t by (cases t) (auto split: if_splits)
  have b: "i \<in> set (task_locked u t) \<Longrightarrow> fst i = u" for t by (cases t) (auto split: if_splits)
  have c: "i \<in> set (task_done u ev t) \<Longrightarrow> fst i = u" for t by (cases t) (auto split: if_splits)
  show "i \<in> set (pend_wait w u) \<Longrightarrow> fst i = u" using a by (auto simp: pend_wait_def)
  show "i \<in> set (pend_locked w u) \<Longrightarrow> fst i = u" using b by (auto simp: pend_locked_def)
  show "i \<in> set (pend_done w u ev) \<Longrightarrow> fst i = u" using c by (auto simp: pend_done_def)
qed

lemma lock_phase_cases [consumes 1, case_names Idle Announced Held Releasing]:
  assumes "lock_phase w u"
  obtains
    (Idle) "frames w u unlock = []" "pend_locked w u = []" "pend_done w u unlock = []"
      "t_uuid (transaction_of w u unlock) = None" "t_list (transaction_of w u unlock) = []"
      "nolock w u"
  | (Announced) i where "frames w u unlock = [i]" "pend_locked w u = [i]"
      "pend_done w u unlock = []" "t_uuid (transaction_of w u unlock) \<noteq> None"
      "i \<notin> resolved w" "nolock w u" "unheld w i"
  | (Held) i where "frames w u unlock = [i]" "pend_locked w u = []"
      "pend_done w u unlock = []" "t_uuid (transaction_of w u unlock) \<noteq> None"
      "i \<notin> resolved w" "holder w i"
  | (Releasing) i where "frames w u unlock = []" "pend_locked w u = []"
      "pend_done w u unlock = [i]" "t_uuid (transaction_of w u unlock) \<noteq> None" "nolock w u"
  using assms unfolding lock_phase_def by (elim disjE exE conjE) blast+

lemma lock_idleI:
  "frames w u unlock = [] \<Longrightarrow> pend_locked w u = [] \<Longrightarrow> pend_done w u unlock = [] \<Longrightarrow>
   t_uuid (transaction_of w u unlock) = None \<Longrightarrow> t_list (transaction_of w u unlock) = [] \<Longrightarrow>
   nolock w u \<Longrightarrow> lock_phase w u"
  unfolding lock_phase_def by blast

lemma lock_announcedI:
  "frames w u unlock = [i] \<Longrightarrow> pend_locked w u = [i] \<Longrightarrow> pend_done w u unlock = [] \<Longrightarrow>
   t_uuid (transaction_of w u unlock) \<noteq> None \<Longrightarrow> i \<notin> resolved w \<Longrightarrow> nolock w u \<Longrightarrow> unheld w i \<Longrightarrow>
   lock_phase w u"
  unfolding lock_phase_def by blast

lemma lock_heldI:
  "frames w u unlock = [i] \<Longrightarrow> pend_locked w u = [] \<Longrightarrow> pend_done w u unlock = [] \<Longrightarrow>
   t_uuid (transaction_of w u unlock) \<noteq> None \<Longrightarrow> i \<notin> resolved w \<Longrightarrow> holder w i \<Longrightarrow>
   lock_phase w u"
  unfolding lock_phase_def by blast

lemma lock_releasingI:
  "frames w u unlock = [] \<Longrightarrow> pend_locked w u = [] \<Longrightarrow> pend_done w u unlock = [i] \<Longrightarrow>
   t_uuid (transaction_of w u unlock) \<noteq> None \<Longrightarrow> nolock w u \<Longrightarrow> lock_phase w u"
  unfolding lock_phase_def by blast

text \<open>The invariant of one database depends on the projections of that database only.\<close>

lemma per_uid_frame:
  assumes inv: "per_uid w u"
    and F: "\<And>ev. frames w' u ev = frames w u ev"
    and W: "pend_wait w' u = pend_wait w u"
    and U: "pend_locked w' u = pend_locked w u"
    and D: "\<And>ev. pend_done w' u ev = pend_done w u ev"
    and T: "transaction_of w' u = transaction_of w u"
    and HO: "opened w' u = opened w u"
    and HE: "\<And>ev. enqueued w' u ev = enqueued w u ev"
    and HS: "\<And>ev. started w' u ev = started w u ev"
    and HL: "locked w' u = locked w u"
    and C: "class_handles w' u = class_handles w u"
    and R: "\<And>i. fst i = u \<Longrightarrow> (i \<in> resolved w') = (i \<in> resolved w)"
    and N: "fresh w \<le> fresh w'"
    and G: "databases w u \<noteq> None \<Longrightarrow> databases w' u \<noteq> None"
  shows "per_uid w' u"
proof -
  have l: "listed w' u ev = listed w u ev" for ev using T by (simp add: listed_def)
  have n: "nolock w' u = nolock w u" using C by (simp add: nolock_def)
  have uh: "fst i = u \<Longrightarrow> unheld w' i = unheld w i" for i using C by (simp add: unheld_def)
  have ho: "fst i = u \<Longrightarrow> holder w' i = holder w i" for i using C by (simp add: holder_def)
  have fr: "frames w u ev = [i] \<Longrightarrow> fst i = u" for i ev
    using uid_of_proj(1) [of i w u ev] by simp
  from inv have lp: "lock_phase w u" by (simp add: per_uid_def)
  have "lock_phase w' u"
    using lp
  proof (cases rule: lock_phase_cases)
    case Idle
    then show ?thesis by (intro lock_idleI) (simp_all add: F U D T n)
  next
    case (Announced i)
    then show ?thesis using fr [of unlock i]
      by (intro lock_announcedI [of _ _ i]) (simp_all add: F U D T n uh R)
  next
    case (Held i)
    then show ?thesis using fr [of unlock i]
      by (intro lock_heldI [of _ _ i]) (simp_all add: F U D T n ho R)
  next
    case (Releasing i)
    then show ?thesis
      by (intro lock_releasingI [of _ _ i]) (simp_all add: F U D T n)
  qed
  moreover have "write_phase w' u"
    using inv unfolding per_uid_def write_phase_def F D T by simp
  moreover have "kinds_ok w' u"
    using inv unfolding per_uid_def kinds_ok_def T by simp
  moreover have "chain_ok w' u"
  proof -
    from inv have c: "chain_ok w u" by (simp add: per_uid_def)
    have w: "waiting w' u = waiting w u" by (simp add: waiting_def l W)
    have 1: "distinct (frames w' u unlock @ waiting w' u)"
      using c by (simp add: chain_ok_def w F)
    have 2: "\<forall>i \<in> set (waiting w' u). i \<notin> resolved w' \<and> unheld w' i"
    proof
      fix i assume i: "i \<in> set (waiting w' u)"
      then have "fst i = u" using c by (simp add: chain_ok_def w)
      with i c show "i \<notin> resolved w' \<and> unheld w' i"
        by (simp add: chain_ok_def w uh R)
    qed
    have 3: "\<forall>i \<in> set (frames w' u unlock @ pend_locked w' u @ waiting w' u).
          fst i = u \<and> snd (snd i) < fresh w' \<and> (\<exists>x. class_handles w' u (fst (snd i)) = Some x)"
      using c N unfolding chain_ok_def w F U C by fastforce
    have 4: "pend_wait w' u \<noteq> [] \<longrightarrow> databases w' u \<noteq> None"
      using c G by (simp add: chain_ok_def W)
    from 1 2 3 4 show ?thesis unfolding chain_ok_def by blast
  qed
  moreover have "fifo w' u"
    using inv unfolding per_uid_def fifo_def l W U HO HE HS HL by simp
  ultimately show ?thesis by (simp add: per_uid_def)
qed

lemma class_handles_updates [simp]:
  "class_handles (w\<lparr>microtasks := a\<rparr>) = class_handles w"
  "class_handles (w\<lparr>suspended := b\<rparr>) = class_handles w"
  "class_handles (w\<lparr>fresh := c\<rparr>) = class_handles w"
  "class_handles (w\<lparr>resolved := d\<rparr>) = class_handles w"
  "class_handles (w\<lparr>history := e\<rparr>) = class_handles w"
  "class_handles (w\<lparr>databases := f\<rparr>) = class_handles w"
  "class_handles (w\<lparr>awaiting_save := g\<rparr>) = class_handles w"
  "class_handles (w\<lparr>disk := k\<rparr>) = class_handles w"
  "class_handles (w\<lparr>w_path := l\<rparr>) = class_handles w"
  by (simp_all add: class_handles_def fun_eq_iff)

lemma class_handles_cong: "handles w' = handles w \<Longrightarrow> class_handles w' = class_handles w"
  by (simp add: class_handles_def fun_eq_iff)

lemma invariantD:
  assumes "invariant w"
  shows "per_uid w u" "lock_phase w u" "write_phase w u" "kinds_ok w u" "chain_ok w u" "fifo w u"
    "stale_ok w" "fresh_ok w"
  using assms by (simp_all add: invariant_def per_uid_def)

lemma chain_okD:
  assumes "chain_ok w u"
  shows "distinct (frames w u unlock @ waiting w u)"
    and "i \<in> set (waiting w u) \<Longrightarrow> i \<notin> resolved w"
    and "i \<in> set (waiting w u) \<Longrightarrow> unheld w i"
    and "i \<in> set (frames w u unlock) \<or> i \<in> set (pend_locked w u) \<or> i \<in> set (waiting w u) \<Longrightarrow>
           snd (snd i) < fresh w \<and> (\<exists>x. class_handles w u (fst (snd i)) = Some x)"
    and "pend_wait w u \<noteq> [] \<Longrightarrow> databases w u \<noteq> None"
  using assms unfolding chain_ok_def by auto

lemma stale_ok_frame:
  assumes "stale_ok w" and "handles w' = handles w" and "fresh w \<le> fresh w'"
    and "resolved w \<subseteq> resolved w'"
  shows "stale_ok w'"
  unfolding stale_ok_def
proof (intro allI impI)
  fix h x i
  assume "handles w' h = Some x \<and> h_unlockDB x = Resolver i"
  with assms(2) have "handles w h = Some x \<and> h_unlockDB x = Resolver i" by simp
  with assms(1) have "fst i = h_class x \<and> snd (snd i) < fresh w \<and> (\<not> h_locking x \<longrightarrow> i \<in> resolved w)"
    unfolding stale_ok_def by blast
  with assms(3,4) show "fst i = h_class x \<and> snd (snd i) < fresh w' \<and> (\<not> h_locking x \<longrightarrow> i \<in> resolved w')"
    by auto
qed

lemma fresh_ok_frame:
  assumes "fresh_ok w" and "handles w' = handles w" and "fresh w \<le> fresh w'"
    and "resolved w' = resolved w" and "\<And>u. databases w u \<noteq> None \<Longrightarrow> databases w' u \<noteq> None"
  shows "fresh_ok w'"
  using assms unfolding fresh_ok_def by (metis (no_types, lifting) order_less_le_trans)

lemma registered_if_busy:
  "t_uuid (transaction_of w u ev) \<noteq> None \<Longrightarrow> databases w u \<noteq> None"
  by (auto simp: transaction_of_def split: option.splits)

lemma tick_wait:
  assumes inv: "invariant w" and m: "microtasks w = LockDB_wait u h n # ts"
  shows "invariant (tick J w)"
proof -
  let ?i = "(u, h, n)"
  let ?w0 = "w\<lparr>microtasks := ts\<rparr>"
  let ?w' = "tick J w"
  have t: "?w' = wait J u unlock h LockTodo n ?w0" using m by (simp add: tick_def)
  note c = invariantD(5) [OF inv, of u]
  have pw: "pend_wait w u = ?i # pend_wait ?w0 u" using m by (simp add: pend_wait_def)
  then have wi: "?i \<in> set (waiting w u)" by (simp add: waiting_def)
  have reg: "databases w u \<noteq> None" using c pw by (simp add: chain_ok_def)
  have nres: "?i \<notin> resolved w" and unh: "unheld w ?i" using c wi by (auto simp: chain_ok_def)
  have ex: "\<exists>x. class_handles w u h = Some x" and lt: "n < fresh w"
    using chain_okD(4) [OF c, of ?i] wi by simp_all
  have nf: "?i \<notin> set (frames w u unlock)" and nl: "?i \<notin> set (listed w u unlock)"
    and dw: "distinct (pend_wait w u)"
    using c pw unfolding chain_ok_def waiting_def by auto
  show ?thesis
  proof (cases "t_uuid (transaction_of w u unlock) = None")
    case False
    then have t': "?w' = record_event (Enqueued unlock ?i)
           (upd_transaction u unlock (\<lambda>t. t\<lparr>t_list := t_list t @ [(LockTodo, h, n)]\<rparr>) ?w0)"
      unfolding t by (simp add: wait_busy)
    have f: "microtasks ?w' = ts" "suspended ?w' = suspended w"
      "history ?w' = history w @ [Enqueued unlock ?i]" "handles ?w' = handles w"
      "resolved ?w' = resolved w" "fresh ?w' = fresh w"
      "\<And>u'. (databases ?w' u' = None) = (databases w u' = None)"
      "\<And>u' ev. transaction_of ?w' u' ev =
          (if u' = u \<and> ev = unlock
           then (transaction_of w u unlock)\<lparr>t_list := t_list (transaction_of w u unlock) @ [(LockTodo, h, n)]\<rparr>
           else transaction_of w u' ev)"
      unfolding t' using reg by simp_all
    have "per_uid ?w' u'" for u'
    proof (cases "u' = u")
      case ne: False
      show ?thesis
        by (rule per_uid_frame [OF invariantD(1) [OF inv, of u']])
           (use ne m in \<open>simp_all add: f proj_defs class_handles_def fun_eq_iff\<close>)
    next
      case True
      have P: "frames ?w' u ev = frames w u ev" "pend_locked ?w' u = pend_locked w u"
        "pend_done ?w' u ev = pend_done w u ev" "pend_wait ?w' u = pend_wait ?w0 u"
        "opened ?w' u = opened w u" "started ?w' u ev = started w u ev" "locked ?w' u = locked w u"
        "enqueued ?w' u write_end = enqueued w u write_end"
        "enqueued ?w' u unlock = enqueued w u unlock @ [?i]"
        "listed ?w' u unlock = listed w u unlock @ [?i]"
        "listed ?w' u write_end = listed w u write_end"
        "class_handles ?w' = class_handles w"
        for ev
        using m by (simp_all add: f proj_defs class_handles_def fun_eq_iff)
      have n: "nolock ?w' u = nolock w u" "\<And>i. unheld ?w' i = unheld w i" "\<And>i. holder ?w' i = holder w i"
        by (simp_all add: nolock_def unheld_def holder_def P)
      have "lock_phase ?w' u"
        using invariantD(2) [OF inv, of u]
      proof (cases rule: lock_phase_cases)
        case Idle
        with False show ?thesis by simp
      next
        case (Announced i)
        then show ?thesis
          by (intro lock_announcedI [of _ _ i]) (simp_all add: P f n)
      next
        case (Held i)
        then show ?thesis
          by (intro lock_heldI [of _ _ i]) (simp_all add: P f n)
      next
        case (Releasing i)
        then show ?thesis
          by (intro lock_releasingI [of _ _ i]) (simp_all add: P f n)
      qed
      moreover have "write_phase ?w' u"
        using invariantD(3) [OF inv, of u] unfolding write_phase_def P f by simp
      moreover have "kinds_ok ?w' u"
        using invariantD(4) [OF inv, of u] unfolding kinds_ok_def f by simp
      moreover have "chain_ok ?w' u"
      proof -
        have wt: "waiting ?w' u = listed w u unlock @ ?i # pend_wait ?w0 u"
          by (simp add: waiting_def P)
        have wt0: "waiting w u = listed w u unlock @ ?i # pend_wait ?w0 u"
          by (simp add: waiting_def pw)
        show ?thesis
          using c reg unfolding chain_ok_def wt wt0 P n f by auto
      qed
      moreover have "fifo ?w' u"
        using invariantD(6) [OF inv, of u] pw unfolding fifo_def P by simp
      ultimately show ?thesis using True by (simp add: per_uid_def)
    qed
    moreover have "stale_ok ?w'"
      by (rule stale_ok_frame [OF invariantD(7) [OF inv]]) (simp_all add: f)
    moreover have "fresh_ok ?w'"
      by (rule fresh_ok_frame [OF invariantD(8) [OF inv]]) (simp_all add: f)
    ultimately show ?thesis by (simp add: invariant_def)
  next
    case True
    with invariantD(2) [OF inv, of u]
    have idle: "frames w u unlock = []" "pend_locked w u = []" "pend_done w u unlock = []"
      "t_list (transaction_of w u unlock) = []" "nolock w u"
      by (cases rule: lock_phase_cases; simp)+
    have a: "databases ?w0 u \<noteq> None" "t_uuid (transaction_of ?w0 u unlock) = None"
      "t_list (transaction_of ?w0 u unlock) = []" "?i \<notin> resolved ?w0"
      using reg True idle nres by simp_all
    note g = wait_idle_lock [OF a, of J, folded t]
    have f: "microtasks ?w' = ts @ [Use_locked u h n]"
      "suspended ?w' = suspended w @ [(unlock, ?i)]"
      "history ?w' = history w @ [Enqueued unlock ?i, Started unlock ?i]"
      "handles ?w' = handles w" "resolved ?w' = resolved w" "fresh ?w' = fresh w"
      "\<And>u'. (databases ?w' u' = None) = (databases w u' = None)"
      "\<And>u' ev. transaction_of ?w' u' ev =
          (if u' = u \<and> ev = unlock then \<lparr>t_list = [], t_uuid = Some h\<rparr> else transaction_of w u' ev)"
      using g by simp_all
    have "per_uid ?w' u'" for u'
    proof (cases "u' = u")
      case ne: False
      show ?thesis
        by (rule per_uid_frame [OF invariantD(1) [OF inv, of u']])
           (use ne m in \<open>simp_all add: f proj_defs class_handles_def fun_eq_iff\<close>)
    next
      case same: True
      have P: "frames ?w' u unlock = [?i]" "frames ?w' u write_end = frames w u write_end"
        "pend_locked ?w' u = [?i]"
        "pend_done ?w' u ev = pend_done w u ev" "pend_wait ?w' u = pend_wait ?w0 u"
        "opened ?w' u = opened w u" "started ?w' u write_end = started w u write_end"
        "started ?w' u unlock = started w u unlock @ [?i]"
        "locked ?w' u = locked w u"
        "enqueued ?w' u write_end = enqueued w u write_end"
        "enqueued ?w' u unlock = enqueued w u unlock @ [?i]"
        "listed ?w' u unlock = []"
        "listed ?w' u write_end = listed w u write_end"
        "class_handles ?w' = class_handles w"
        for ev
        using m idle by (simp_all add: f proj_defs class_handles_def fun_eq_iff)
      have n: "nolock ?w' u = nolock w u" "\<And>i. unheld ?w' i = unheld w i" "\<And>i. holder ?w' i = holder w i"
        by (simp_all add: nolock_def unheld_def holder_def P)
      have "lock_phase ?w' u"
        using idle nres unh by (intro lock_announcedI [of _ _ ?i]) (simp_all add: P f n)
      moreover have "write_phase ?w' u"
        using invariantD(3) [OF inv, of u] unfolding write_phase_def P f by simp
      moreover have "kinds_ok ?w' u"
        using invariantD(4) [OF inv, of u] unfolding kinds_ok_def f by simp
      moreover have "chain_ok ?w' u"
      proof -
        have l0: "listed w u unlock = []" using idle by (simp add: listed_def)
        have wt: "waiting ?w' u = pend_wait ?w0 u"
          by (simp add: waiting_def P)
        have wt0: "waiting w u = ?i # pend_wait ?w0 u"
          by (simp add: waiting_def pw l0)
        show ?thesis
          using c reg idle lt ex unfolding chain_ok_def wt wt0 P n f by auto
      qed
      moreover have "fifo ?w' u"
      proof -
        have l0: "listed w u unlock = []" using idle by (simp add: listed_def)
        show ?thesis
          using invariantD(6) [OF inv, of u] pw idle unfolding fifo_def P l0 by simp
      qed
      ultimately show ?thesis using same by (simp add: per_uid_def)
    qed
    moreover have "stale_ok ?w'"
      by (rule stale_ok_frame [OF invariantD(7) [OF inv]]) (simp_all add: f)
    moreover have "fresh_ok ?w'"
      by (rule fresh_ok_frame [OF invariantD(8) [OF inv]]) (simp_all add: f)
    ultimately show ?thesis by (simp add: invariant_def)
  qed
qed

lemma tick_locked:
  assumes inv: "invariant w" and m: "microtasks w = Use_locked u h n # ts"
  shows "invariant (tick J w)"
proof -
  let ?i = "(u, h, n)"
  let ?w0 = "w\<lparr>microtasks := ts\<rparr>"
  let ?w' = "tick J w"
  note c = invariantD(5) [OF inv, of u]
  have pl: "pend_locked w u = ?i # pend_locked ?w0 u" using m by (simp add: pend_locked_def)
  with invariantD(2) [OF inv, of u]
  have ph: "frames w u unlock = [?i]" "pend_locked ?w0 u = []" "pend_done w u unlock = []"
    "t_uuid (transaction_of w u unlock) \<noteq> None" "?i \<notin> resolved w" "nolock w u" "unheld w ?i"
    by (cases rule: lock_phase_cases; simp)+
  from chain_okD(4) [OF c, of ?i] pl obtain x where x: "class_handles w u h = Some x" and lt: "n < fresh w"
    by auto
  then have hx: "handles w h = Some x" "h_class x = u"
    by (auto simp: class_handles_def split: option.splits if_splits)
  let ?x' = "x\<lparr>h_unlockDB := Resolver ?i, h_locking := True\<rparr>"
  have t: "?w' = record_event (Locked ?i) (?w0\<lparr>handles := (handles w)(h \<mapsto> ?x')\<rparr>)"
    using m hx by (simp add: tick_def)
  have f: "microtasks ?w' = ts" "suspended ?w' = suspended w"
    "history ?w' = history w @ [Locked ?i]" "handles ?w' = (handles w)(h \<mapsto> ?x')"
    "resolved ?w' = resolved w" "fresh ?w' = fresh w"
    "\<And>u'. (databases ?w' u' = None) = (databases w u' = None)"
    "transaction_of ?w' = transaction_of w"
    unfolding t by (simp_all add: fun_eq_iff transaction_of_def)
  have ch: "class_handles ?w' u' = (if u' = u then (class_handles w u)(h \<mapsto> ?x') else class_handles w u')" for u'
    using hx by (auto simp: class_handles_def f fun_eq_iff)
  have "per_uid ?w' u'" for u'
  proof (cases "u' = u")
    case ne: False
    show ?thesis
      by (rule per_uid_frame [OF invariantD(1) [OF inv, of u']])
         (use ne m in \<open>simp_all add: f proj_defs ch\<close>)
  next
    case same: True
    have P: "frames ?w' u ev = frames w u ev" "pend_locked ?w' u = []"
      "pend_done ?w' u ev = pend_done w u ev" "pend_wait ?w' u = pend_wait w u"
      "opened ?w' u = opened w u" "started ?w' u ev = started w u ev"
      "locked ?w' u = locked w u @ [?i]" "enqueued ?w' u ev = enqueued w u ev"
      "listed ?w' u ev = listed w u ev" "waiting ?w' u = waiting w u"
      for ev
      using m ph(2) by (simp_all add: f proj_defs waiting_def)
    have hold: "holder ?w' ?i"
      using ph(6) x by (auto simp: holder_def ch nolock_def)
    have "lock_phase ?w' u"
      using ph hold by (intro lock_heldI [of _ _ ?i]) (simp_all add: P f)
    moreover have "write_phase ?w' u"
      using invariantD(3) [OF inv, of u] unfolding write_phase_def P f by simp
    moreover have "kinds_ok ?w' u"
      using invariantD(4) [OF inv, of u] unfolding kinds_ok_def f by simp
    moreover have "chain_ok ?w' u"
    proof -
      have d: "?i \<notin> set (waiting w u)" using chain_okD(1) [OF c] ph(1) by simp
      have 2: "\<forall>j \<in> set (waiting ?w' u). j \<notin> resolved ?w' \<and> unheld ?w' j"
      proof
        fix j assume j: "j \<in> set (waiting ?w' u)"
        then have jw: "j \<in> set (waiting w u)" by (simp add: P)
        with d have ne: "j \<noteq> ?i" by auto
        have "fst j = u" using jw uid_of_proj(2,5) [of j w u] by (auto simp: waiting_def)
        then have "unheld ?w' j" using chain_okD(3) [OF c jw] ne
          by (auto simp: unheld_def ch)
        with chain_okD(2) [OF c jw] show "j \<notin> resolved ?w' \<and> unheld ?w' j" by (simp add: f)
      qed
      have 3: "\<forall>j \<in> set (frames ?w' u unlock @ pend_locked ?w' u @ waiting ?w' u).
          fst j = u \<and> snd (snd j) < fresh ?w' \<and> (\<exists>y. class_handles ?w' u (fst (snd j)) = Some y)"
      proof
        fix j assume "j \<in> set (frames ?w' u unlock @ pend_locked ?w' u @ waiting ?w' u)"
        then have j: "j \<in> set (frames w u unlock) \<or> j \<in> set (waiting w u)" by (auto simp: P)
        then have "fst j = u" using uid_of_proj(1,2,5) [of j w u] by (auto simp: waiting_def)
        moreover from chain_okD(4) [OF c, of j] j
        have "snd (snd j) < fresh w \<and> (\<exists>x. class_handles w u (fst (snd j)) = Some x)" by blast
        ultimately show "fst j = u \<and> snd (snd j) < fresh ?w' \<and> (\<exists>y. class_handles ?w' u (fst (snd j)) = Some y)"
          by (auto simp: f ch)
      qed
      show ?thesis
        unfolding chain_ok_def
        using chain_okD(1,5) [OF c] 2 3 by (simp add: P f)
    qed
    moreover have "fifo ?w' u"
      using invariantD(6) [OF inv, of u] pl ph(2) unfolding fifo_def P by simp
    ultimately show ?thesis using same by (simp add: per_uid_def)
  qed
  moreover have "stale_ok ?w'"
    unfolding stale_ok_def
  proof (intro allI impI)
    fix h' y j
    assume a: "handles ?w' h' = Some y \<and> h_unlockDB y = Resolver j"
    show "fst j = h_class y \<and> snd (snd j) < fresh ?w' \<and> (\<not> h_locking y \<longrightarrow> j \<in> resolved ?w')"
    proof (cases "h' = h")
      case True
      with a have "y = ?x'" "j = ?i" by (auto simp: f)
      then show ?thesis using hx lt by (simp add: f)
    next
      case False
      with a have "handles w h' = Some y \<and> h_unlockDB y = Resolver j" by (simp add: f)
      with invariantD(7) [OF inv] show ?thesis unfolding stale_ok_def f by blast
    qed
  qed
  moreover have "fresh_ok ?w'"
    using invariantD(8) [OF inv] hx unfolding fresh_ok_def f by auto
  ultimately show ?thesis by (simp add: invariant_def)
qed

lemma only_frame:
  assumes "map snd (filter (\<lambda>f. fst f = unlock \<and> fst (snd f) = c) S) = [i]"
    and "filter (\<lambda>f. fst f = write_end \<and> fst (snd f) = c) S = []"
    and "fst i = c"
  shows "filter (\<lambda>f. snd f = i) S = [(unlock, i)]"
  using assms
proof (induction S)
  case Nil
  then show ?case by simp
next
  case (Cons f S)
  obtain ev j where f: "f = (ev, j)" by (cases f)
  show ?case
  proof (cases "ev = unlock \<and> fst j = c")
    case True
    with Cons.prems f have j: "j = i" and r: "filter (\<lambda>f. fst f = unlock \<and> fst (snd f) = c) S = []"
      by auto
    have "filter (\<lambda>f. snd f = i) S = []"
    proof -
      have "\<forall>g \<in> set S. snd g \<noteq> i"
      proof
        fix g assume g: "g \<in> set S"
        show "snd g \<noteq> i"
        proof
          assume "snd g = i"
          then have "fst (snd g) = c" using Cons.prems(3) by simp
          moreover have "fst g = unlock \<or> fst g = write_end" by (cases "fst g") auto
          ultimately have "g \<in> set (filter (\<lambda>f. fst f = unlock \<and> fst (snd f) = c) S) \<or>
            g \<in> set (filter (\<lambda>f. fst f = write_end \<and> fst (snd f) = c) S)"
            using g by auto
          with r Cons.prems(2) True f show False by (auto split: if_splits)
        qed
      qed
      then show ?thesis by (simp add: filter_empty_conv)
    qed
    with True f j show ?thesis by simp
  next
    case False
    with Cons.prems f have a: "map snd (filter (\<lambda>f. fst f = unlock \<and> fst (snd f) = c) S) = [i]"
      by auto
    from Cons.prems(2) f have b: "filter (\<lambda>f. fst f = write_end \<and> fst (snd f) = c) S = []"
      by (auto split: if_splits)
    from Cons.prems(2) f have nw: "\<not> (ev = write_end \<and> fst j = c)" by (auto split: if_splits)
    have "j \<noteq> i"
    proof
      assume "j = i"
      then have "fst j = c" using Cons.prems(3) by simp
      moreover have "ev = unlock \<or> ev = write_end" by (cases ev) auto
      ultimately show False using False nw by auto
    qed
    with Cons.IH [OF a b Cons.prems(3)] f show ?thesis by simp
  qed
qed

lemma close_inv:
  assumes inv: "invariant w"
  shows "invariant (snd (close h w))"
proof (cases "handles w h")
  case None
  then show ?thesis using inv by (simp add: close_def)
next
  case (Some x)
  show ?thesis
  proof (cases "h_unlockDB x")
    case Thrower
    with Some show ?thesis using inv by (simp add: close_def)
  next
    case (Resolver i)
    let ?c = "h_class x"
    from invariantD(7) [OF inv] Some Resolver
    have st: "fst i = ?c" "snd (snd i) < fresh w" "\<not> h_locking x \<Longrightarrow> i \<in> resolved w"
      unfolding stale_ok_def by blast+
    have chx: "class_handles w ?c h = Some x" using Some by (simp add: class_handles_def)
    show ?thesis
    proof (cases "h_locking x")
      case False
      then have "i \<in> resolved w" by (rule st(3))
      moreover have "x\<lparr>h_locking := False\<rparr> = x" using False by simp
      then have "(handles w)(h \<mapsto> x\<lparr>h_locking := False\<rparr>) = handles w" using Some by auto
      ultimately have "snd (close h w) = w"
        using Some Resolver by (simp add: close_def resolver_def)
      with inv show ?thesis by simp
    next
      case True
      with chx have nn: "\<not> nolock w ?c" unfolding nolock_def by blast
      with invariantD(2) [OF inv, of ?c] obtain j where
        ph: "frames w ?c unlock = [j]" "pend_locked w ?c = []" "pend_done w ?c unlock = []"
          "t_uuid (transaction_of w ?c unlock) \<noteq> None" "j \<notin> resolved w" "holder w j"
        by (cases rule: lock_phase_cases) auto
      have fj: "fst j = ?c" using uid_of_proj(1) [of j w ?c unlock] ph(1) by simp
      from ph(6) chx True fj have hj: "h = fst (snd j)" unfolding holder_def by auto
      with ph(6) chx fj have "h_unlockDB x = Resolver j" unfolding holder_def by auto
      with Resolver have ji: "j = i" by simp
      note ph = ph [unfolded ji]
      have nr: "i \<notin> resolved w" by (rule ph(5))
      have fw: "filter (\<lambda>f. fst f = write_end \<and> fst (snd f) = ?c) (suspended w) = []"
        using invariantD(3) [OF inv, of ?c] by (simp add: write_phase_def frames_def)
      have only: "filter (\<lambda>f. snd f = i) (suspended w) = [(unlock, i)]"
        using only_frame [OF ph(1) [unfolded frames_def] fw st(1)] .
      let ?x' = "x\<lparr>h_locking := False\<rparr>"
      let ?w' = "snd (close h w)"
      obtain hh nn' where i: "i = (?c, hh, nn')" using st(1) by (cases i) auto
      have f: "microtasks ?w' = microtasks w @ [Handler_done ?c unlock hh nn' None]"
        "suspended ?w' = filter (\<lambda>f. snd f \<noteq> i) (suspended w)"
        "history ?w' = history w" "handles ?w' = (handles w)(h \<mapsto> ?x')"
        "resolved ?w' = insert i (resolved w)" "fresh ?w' = fresh w"
        "databases ?w' = databases w"
        "transaction_of ?w' = transaction_of w"
        using Some Resolver nr only i
        by (simp_all add: close_def resolver_def Let_def fun_eq_iff transaction_of_def)
      have ch: "class_handles ?w' u' = (if u' = ?c then (class_handles w ?c)(h \<mapsto> ?x') else class_handles w u')" for u'
        using Some by (auto simp: class_handles_def f fun_eq_iff)
      have fr: "frames ?w' u' ev = (if u' = ?c \<and> ev = unlock then [] else frames w u' ev)" for u' ev
      proof -
        have "filter (\<lambda>f. fst f = ev \<and> fst (snd f) = u') (filter (\<lambda>f. snd f \<noteq> i) (suspended w)) =
              filter (\<lambda>f. snd f \<noteq> i) (filter (\<lambda>f. fst f = ev \<and> fst (snd f) = u') (suspended w))"
          by (simp add: conj_commute)
        then have e: "frames ?w' u' ev = filter (\<lambda>j. j \<noteq> i) (frames w u' ev)"
          by (simp add: frames_def f filter_map comp_def)
        show ?thesis
        proof (cases "u' = ?c")
          case True
          show ?thesis
          proof (cases ev)
            case unlock
            with True e ph(1) show ?thesis by simp
          next
            case write_end
            with True e fw show ?thesis by (simp add: frames_def)
          qed
        next
          case False
          have "\<forall>j \<in> set (frames w u' ev). j \<noteq> i"
            using uid_of_proj(1) [of _ w u' ev] st(1) False by auto
          then have "filter (\<lambda>j. j \<noteq> i) (frames w u' ev) = frames w u' ev"
            by (simp add: filter_id_conv)
          with e False show ?thesis by simp
        qed
      qed
      have "per_uid ?w' u'" for u'
      proof (cases "u' = ?c")
        case ne: False
        show ?thesis
          by (rule per_uid_frame [OF invariantD(1) [OF inv, of u']])
             (use ne st(1) in \<open>auto simp add: f pend_locked_def pend_done_def pend_wait_def listed_def
                 enqueued_def started_def opened_def locked_def ch fr\<close>)
      next
        case same: True
        have P: "pend_locked ?w' ?c = []"
          "pend_done ?w' ?c unlock = [i]" "pend_done ?w' ?c write_end = pend_done w ?c write_end"
          "pend_wait ?w' ?c = pend_wait w ?c"
          "opened ?w' ?c = opened w ?c" "started ?w' ?c ev = started w ?c ev"
          "locked ?w' ?c = locked w ?c" "enqueued ?w' ?c ev = enqueued w ?c ev"
          "listed ?w' ?c ev = listed w ?c ev" "waiting ?w' ?c = waiting w ?c"
          for ev
          using ph(2,3) i by (simp_all add: f proj_defs waiting_def)
        have nl: "nolock ?w' ?c"
          using ph(6) fj hj ji unfolding holder_def nolock_def ch by (auto split: if_splits)
        have "lock_phase ?w' ?c"
          using ph nl by (intro lock_releasingI [of _ _ i]) (simp_all add: P f fr)
        moreover have "write_phase ?w' ?c"
          using invariantD(3) [OF inv, of ?c] unfolding write_phase_def P f fr by simp
        moreover have "kinds_ok ?w' ?c"
          using invariantD(4) [OF inv, of ?c] unfolding kinds_ok_def f by simp
        moreover have "chain_ok ?w' ?c"
        proof -
          note c = invariantD(5) [OF inv, of ?c]
          have d: "i \<notin> set (waiting w ?c)" using chain_okD(1) [OF c] ph(1) by simp
          have 2: "\<forall>j \<in> set (waiting ?w' ?c). j \<notin> resolved ?w' \<and> unheld ?w' j"
          proof
            fix j assume j: "j \<in> set (waiting ?w' ?c)"
            then have jw: "j \<in> set (waiting w ?c)" by (simp add: P)
            with d have ne: "j \<noteq> i" by auto
            have "fst j = ?c" using jw uid_of_proj(2,5) [of j w ?c] by (auto simp: waiting_def)
            then have "unheld ?w' j" using chain_okD(3) [OF c jw] chx
              by (auto simp: unheld_def ch split: if_splits)
            with chain_okD(2) [OF c jw] ne show "j \<notin> resolved ?w' \<and> unheld ?w' j" by (simp add: f)
          qed
          have 3: "\<forall>j \<in> set (frames ?w' ?c unlock @ pend_locked ?w' ?c @ waiting ?w' ?c).
              fst j = ?c \<and> snd (snd j) < fresh ?w' \<and> (\<exists>y. class_handles ?w' ?c (fst (snd j)) = Some y)"
          proof
            fix j assume "j \<in> set (frames ?w' ?c unlock @ pend_locked ?w' ?c @ waiting ?w' ?c)"
            then have j: "j \<in> set (waiting w ?c)" by (auto simp: P fr)
            then have "fst j = ?c" using uid_of_proj(2,5) [of j w ?c] by (auto simp: waiting_def)
            moreover from chain_okD(4) [OF c, of j] j
            have "snd (snd j) < fresh w \<and> (\<exists>x. class_handles w ?c (fst (snd j)) = Some x)" by blast
            ultimately show "fst j = ?c \<and> snd (snd j) < fresh ?w' \<and> (\<exists>y. class_handles ?w' ?c (fst (snd j)) = Some y)"
              by (auto simp: f ch)
          qed
          show ?thesis
            unfolding chain_ok_def
            using chain_okD(1,5) [OF c] 2 3 by (simp add: P f fr)
        qed
        moreover have "fifo ?w' ?c"
          using invariantD(6) [OF inv, of ?c] ph(2) unfolding fifo_def P by simp
        ultimately show ?thesis using same by (simp add: per_uid_def)
      qed
      moreover have "stale_ok ?w'"
        unfolding stale_ok_def
      proof (intro allI impI)
        fix h' y j
        assume a: "handles ?w' h' = Some y \<and> h_unlockDB y = Resolver j"
        show "fst j = h_class y \<and> snd (snd j) < fresh ?w' \<and> (\<not> h_locking y \<longrightarrow> j \<in> resolved ?w')"
        proof (cases "h' = h")
          case True
          with a have "y = ?x'" by (auto simp: f)
          with a Resolver have "j = i" by simp
          with \<open>y = ?x'\<close> st show ?thesis by (simp add: f)
        next
          case False
          with a have "handles w h' = Some y \<and> h_unlockDB y = Resolver j" by (simp add: f)
          with invariantD(7) [OF inv] show ?thesis unfolding stale_ok_def f by blast
        qed
      qed
      moreover have "fresh_ok ?w'"
        using invariantD(8) [OF inv] Some st(2) unfolding fresh_ok_def f by auto
      ultimately show ?thesis by (simp add: invariant_def)
    qed
  qed
qed

lemma tick_done:
  assumes inv: "invariant w" and m: "microtasks w = Handler_done u ev h n r # ts"
  shows "invariant (tick J w)"
proof -
  let ?i = "(u, h, n)"
  let ?w0 = "w\<lparr>microtasks := ts\<rparr>"
  let ?w1 = "deliver ?i r ?w0"
  let ?w' = "tick J w"
  let ?T = "transaction_of w u ev"
  have t: "?w' = on_event J u ev ?w1" using m by (simp add: tick_def)
  note c = invariantD(5) [OF inv, of u]
  have pd: "pend_done w u ev = ?i # pend_done ?w0 u ev" using m by (simp add: pend_done_def)
  have busy: "t_uuid ?T \<noteq> None" and pd0: "pend_done ?w0 u ev = []"
  proof -
    show "t_uuid ?T \<noteq> None"
    proof (cases ev)
      case unlock
      with invariantD(2) [OF inv, of u] pd show ?thesis by (cases rule: lock_phase_cases) auto
    next
      case write_end
      with invariantD(3) [OF inv, of u] pd show ?thesis by (auto simp: write_phase_def)
    qed
    show "pend_done ?w0 u ev = []"
    proof (cases ev)
      case unlock
      with invariantD(2) [OF inv, of u] pd show ?thesis by (cases rule: lock_phase_cases) auto
    next
      case write_end
      with invariantD(3) [OF inv, of u] pd show ?thesis by (auto simp: write_phase_def)
    qed
  qed
  have reg: "databases w u \<noteq> None" using busy by (rule registered_if_busy)
  have mk: "microtasks ?w1 = ts @ map (\<lambda>a. SaveClose_close (snd a)) (filter (\<lambda>a. fst a = ?i) (awaiting_save w))"
    by (simp add: deliver_def)
  have pw1: "pend_wait ?w1 u' = pend_wait ?w0 u'" "pend_locked ?w1 u' = pend_locked ?w0 u'"
    "pend_done ?w1 u' ev' = pend_done ?w0 u' ev'" for u' ev'
    by simp_all
  have pp0: "pend_wait ?w0 u' = pend_wait w u'" "pend_locked ?w0 u' = pend_locked w u'"
    "pend_done ?w0 u' ev' = (if u' = u \<and> ev' = ev then [] else pend_done w u' ev')" for u' ev'
    using m pd0 by (auto simp: pend_wait_def pend_locked_def pend_done_def)
  have unl: "ev = unlock \<Longrightarrow> frames w u unlock = [] \<and> pend_locked w u = [] \<and> nolock w u"
    using invariantD(2) [OF inv, of u] pd by (cases rule: lock_phase_cases) auto
  show ?thesis
  proof (cases "t_list ?T")
    case Nil
    have t': "?w' = upd_transaction u ev (\<lambda>t. t\<lparr>t_uuid := None\<rparr>) ?w1"
      unfolding t using reg Nil by (simp add: on_event_empty)
    have f: "microtasks ?w' = microtasks ?w1" "suspended ?w' = suspended w"
      "history ?w' = history w" "handles ?w' = handles w"
      "resolved ?w' = resolved w" "fresh ?w' = fresh w"
      "\<And>u'. (databases ?w' u' = None) = (databases w u' = None)"
      "\<And>u' ev'. transaction_of ?w' u' ev' =
          (if u' = u \<and> ev' = ev then \<lparr>t_list = [], t_uuid = None\<rparr> else transaction_of w u' ev')"
      unfolding t' using reg Nil by simp_all
    have pp: "pend_wait ?w' u' = pend_wait ?w0 u'" "pend_locked ?w' u' = pend_locked ?w0 u'"
      "pend_done ?w' u' ev' = pend_done ?w0 u' ev'" for u' ev'
      using pw1 by (simp_all add: pend_wait_def pend_locked_def pend_done_def f)
    have "per_uid ?w' u'" for u'
    proof (cases "u' = u")
      case ne: False
      show ?thesis
        by (rule per_uid_frame [OF invariantD(1) [OF inv, of u']])
           (use ne in \<open>simp_all add: pp pp0 f frames_def listed_def
                 enqueued_def started_def opened_def locked_def class_handles_def fun_eq_iff\<close>)
    next
      case same: True
      have P: "frames ?w' u ev' = frames w u ev'" "pend_locked ?w' u = pend_locked w u"
        "pend_done ?w' u ev = []" "ev' \<noteq> ev \<Longrightarrow> pend_done ?w' u ev' = pend_done w u ev'"
        "pend_wait ?w' u = pend_wait w u"
        "opened ?w' u = opened w u" "started ?w' u ev' = started w u ev'"
        "locked ?w' u = locked w u" "enqueued ?w' u ev' = enqueued w u ev'"
        "listed ?w' u ev' = listed w u ev'" "waiting ?w' u = waiting w u"
        "class_handles ?w' = class_handles w"
        for ev'
        using Nil
        by (auto simp add: pp pp0 f frames_def listed_def
                 enqueued_def started_def opened_def locked_def waiting_def class_handles_def fun_eq_iff)
      have n: "nolock ?w' u = nolock w u" "\<And>i. unheld ?w' i = unheld w i" "\<And>i. holder ?w' i = holder w i"
        by (simp_all add: nolock_def unheld_def holder_def P)
      have "lock_phase ?w' u"
      proof (cases ev)
        case unlock
        from P(3) unlock have "pend_done ?w' u unlock = []" by simp
        with unl unlock show ?thesis
          by (intro lock_idleI) (simp_all add: P(1,2) f n)
      next
        case write_end
        then have pdu: "pend_done ?w' u unlock = pend_done w u unlock" using P(4) [of unlock] by simp
        note P = P(1,2) pdu
        from invariantD(2) [OF inv, of u] show ?thesis
        proof (cases rule: lock_phase_cases)
          case Idle
          then show ?thesis using write_end by (intro lock_idleI) (simp_all add: P f n)
        next
          case (Announced i)
          then show ?thesis using write_end by (intro lock_announcedI [of _ _ i]) (simp_all add: P f n)
        next
          case (Held i)
          then show ?thesis using write_end by (intro lock_heldI [of _ _ i]) (simp_all add: P f n)
        next
          case (Releasing i)
          then show ?thesis using write_end by (intro lock_releasingI [of _ _ i]) (simp_all add: P f n)
        qed
      qed
      moreover have "write_phase ?w' u"
      proof (cases ev)
        case unlock
        with invariantD(3) [OF inv, of u] P(4) [of write_end] show ?thesis
          unfolding write_phase_def by (simp add: P(1) f)
      next
        case write_end
        from P(3) write_end have "pend_done ?w' u write_end = []" by simp
        with invariantD(3) [OF inv, of u] write_end show ?thesis
          unfolding write_phase_def by (simp add: P(1) f)
      qed
      moreover have "kinds_ok ?w' u"
        using invariantD(4) [OF inv, of u] unfolding kinds_ok_def f by simp
      moreover have "chain_ok ?w' u"
        using c reg unfolding chain_ok_def P n f by simp
      moreover have "fifo ?w' u"
        using invariantD(6) [OF inv, of u] unfolding fifo_def P by simp
      ultimately show ?thesis using same by (simp add: per_uid_def)
    qed
    moreover have "stale_ok ?w'"
      by (rule stale_ok_frame [OF invariantD(7) [OF inv]]) (simp_all add: f)
    moreover have "fresh_ok ?w'"
      by (rule fresh_ok_frame [OF invariantD(8) [OF inv]]) (simp_all add: f)
    ultimately show ?thesis by (simp add: invariant_def)
  next
    case (Cons job rest)
    obtain td h' n' where job: "job = (td, h', n')" by (cases job)
    let ?j = "(u, h', n')"
    have reg1: "databases ?w1 u \<noteq> None" using reg by simp
    have stale: "stale_ok ?w'" and fr_ok: "fresh_ok ?w'"
      if "handles ?w' = handles w" "resolved ?w' = resolved w" "fresh ?w' = fresh w"
        "\<And>u'. (databases ?w' u' = None) = (databases w u' = None)"
    proof -
      show "stale_ok ?w'"
        by (rule stale_ok_frame [OF invariantD(7) [OF inv]]) (simp_all add: that)
      show "fresh_ok ?w'"
        by (rule fresh_ok_frame [OF invariantD(8) [OF inv]]) (simp_all add: that)
    qed
    show ?thesis
    proof (cases ev)
      case unlock
      have td: "td = LockTodo"
        using invariantD(4) [OF inv, of u] Cons job unlock by (simp add: kinds_ok_def)
      have lst: "listed w u unlock = ?j # map (\<lambda>j. (u, snd j)) rest"
        using Cons job unlock by (simp add: listed_def)
      then have jw: "?j \<in> set (waiting w u)" by (simp add: waiting_def)
      have nres: "?j \<notin> resolved w" and unh: "unheld w ?j"
        using chain_okD(2,3) [OF c jw] by simp_all
      have ex: "\<exists>x. class_handles w u h' = Some x" and lt: "n' < fresh w"
        using chain_okD(4) [OF c, of ?j] jw by simp_all
      have a: "t_list (transaction_of ?w1 u ev) = (LockTodo, h', n') # rest" "?j \<notin> resolved ?w1"
        using Cons job td nres by simp_all
      note g = on_event_lock [OF reg1 a, of J, folded t]
      have f: "microtasks ?w' = microtasks ?w1 @ [Use_locked u h' n']"
        "suspended ?w' = suspended w @ [(unlock, ?j)]"
        "history ?w' = history w @ [Started unlock ?j]"
        "handles ?w' = handles w" "resolved ?w' = resolved w" "fresh ?w' = fresh w"
        "\<And>u'. (databases ?w' u' = None) = (databases w u' = None)"
        "\<And>u' ev'. transaction_of ?w' u' ev' =
            (if u' = u \<and> ev' = unlock then \<lparr>t_list = rest, t_uuid = Some h'\<rparr> else transaction_of w u' ev')"
        using g unlock by simp_all
      have pp: "pend_wait ?w' u' = pend_wait w u'"
        "pend_locked ?w' u' = pend_locked w u' @ (if u' = u then [?j] else [])"
        "pend_done ?w' u' ev' = (if u' = u \<and> ev' = unlock then [] else pend_done w u' ev')" for u' ev'
        using pw1 pp0 unlock
        by (simp_all add: pend_wait_def pend_locked_def pend_done_def f)
      have "per_uid ?w' u'" for u'
      proof (cases "u' = u")
        case ne: False
        show ?thesis
          by (rule per_uid_frame [OF invariantD(1) [OF inv, of u']])
             (use ne in \<open>simp_all add: pp f frames_def listed_def
                   enqueued_def started_def opened_def locked_def class_handles_def fun_eq_iff\<close>)
      next
        case same: True
        have P: "frames ?w' u unlock = [?j]" "frames ?w' u write_end = frames w u write_end"
          "opened ?w' u = opened w u" "started ?w' u write_end = started w u write_end"
          "started ?w' u unlock = started w u unlock @ [?j]"
          "locked ?w' u = locked w u" "enqueued ?w' u ev' = enqueued w u ev'"
          "listed ?w' u unlock = map (\<lambda>j. (u, snd j)) rest"
          "listed ?w' u write_end = listed w u write_end"
          "class_handles ?w' = class_handles w"
          for ev'
          using unl unlock
          by (auto simp add: f frames_def listed_def
                   enqueued_def started_def opened_def locked_def class_handles_def fun_eq_iff)
        have n: "nolock ?w' u = nolock w u" "\<And>i. unheld ?w' i = unheld w i" "\<And>i. holder ?w' i = holder w i"
          by (simp_all add: nolock_def unheld_def holder_def P)
        have "lock_phase ?w' u"
          using unl unlock nres unh by (intro lock_announcedI [of _ _ ?j]) (simp_all add: P pp f n)
        moreover have "write_phase ?w' u"
          using invariantD(3) [OF inv, of u] unfolding write_phase_def P pp f by simp
        moreover have "kinds_ok ?w' u"
          using invariantD(4) [OF inv, of u] Cons unlock unfolding kinds_ok_def f by simp
        moreover have "chain_ok ?w' u"
        proof -
          have wt: "waiting ?w' u = map (\<lambda>j. (u, snd j)) rest @ pend_wait w u"
            by (simp add: waiting_def P pp)
          have wt0: "waiting w u = ?j # map (\<lambda>j. (u, snd j)) rest @ pend_wait w u"
            by (simp add: waiting_def lst)
          have fr0: "frames w u unlock = []" using unl unlock by simp
          show ?thesis
            using c reg lt ex unfolding chain_ok_def wt wt0 P pp n f fr0 by auto
        qed
        moreover have "fifo ?w' u"
          using invariantD(6) [OF inv, of u] lst unl unlock unfolding fifo_def P pp by simp
        ultimately show ?thesis using same by (simp add: per_uid_def)
      qed
      with stale fr_ok f show ?thesis by (simp add: invariant_def)
    next
      case write_end
      have td: "td = WriteTodo"
        using invariantD(4) [OF inv, of u] Cons job write_end by (simp add: kinds_ok_def)
      have lst: "listed w u write_end = ?j # map (\<lambda>j. (u, snd j)) rest"
        using Cons job write_end by (simp add: listed_def)
      have a: "t_list (transaction_of ?w1 u ev) = (WriteTodo, h', n') # rest"
        using Cons job td by simp
      note g = on_event_write [OF reg1 a, of J, folded t]
      from g(1) obtain r' where mt: "microtasks ?w' = microtasks ?w1 @ [Handler_done u ev h' n' (Some r')]"
        by blast
      have f: "suspended ?w' = suspended w"
        "history ?w' = history w @ [Started write_end ?j]"
        "handles ?w' = handles w" "resolved ?w' = resolved w" "fresh ?w' = fresh w"
        "\<And>u'. (databases ?w' u' = None) = (databases w u' = None)"
        "\<And>u' ev'. transaction_of ?w' u' ev' =
            (if u' = u \<and> ev' = write_end then \<lparr>t_list = rest, t_uuid = Some h'\<rparr> else transaction_of w u' ev')"
        using g write_end by simp_all
      have pp: "pend_wait ?w' u' = pend_wait w u'"
        "pend_locked ?w' u' = pend_locked w u'"
        "pend_done ?w' u' ev' = (if u' = u \<and> ev' = write_end then [?j] else pend_done w u' ev')" for u' ev'
        using pw1 pp0 write_end
        by (simp_all add: pend_wait_def pend_locked_def pend_done_def mt)
      have "per_uid ?w' u'" for u'
      proof (cases "u' = u")
        case ne: False
        show ?thesis
          by (rule per_uid_frame [OF invariantD(1) [OF inv, of u']])
             (use ne in \<open>simp_all add: pp f frames_def listed_def
                   enqueued_def started_def opened_def locked_def class_handles_def fun_eq_iff\<close>)
      next
        case same: True
        have P: "frames ?w' u ev' = frames w u ev'"
          "opened ?w' u = opened w u" "started ?w' u unlock = started w u unlock"
          "started ?w' u write_end = started w u write_end @ [?j]"
          "locked ?w' u = locked w u" "enqueued ?w' u ev' = enqueued w u ev'"
          "listed ?w' u write_end = map (\<lambda>j. (u, snd j)) rest"
          "listed ?w' u unlock = listed w u unlock"
          "class_handles ?w' = class_handles w"
          for ev'
          by (auto simp add: f frames_def listed_def
                   enqueued_def started_def opened_def locked_def class_handles_def fun_eq_iff)
        have n: "nolock ?w' u = nolock w u" "\<And>i. unheld ?w' i = unheld w i" "\<And>i. holder ?w' i = holder w i"
          by (simp_all add: nolock_def unheld_def holder_def P)
        have "lock_phase ?w' u"
          using invariantD(2) [OF inv, of u]
        proof (cases rule: lock_phase_cases)
          case Idle
          then show ?thesis by (intro lock_idleI) (simp_all add: P pp f n)
        next
          case (Announced i)
          then show ?thesis by (intro lock_announcedI [of _ _ i]) (simp_all add: P pp f n)
        next
          case (Held i)
          then show ?thesis by (intro lock_heldI [of _ _ i]) (simp_all add: P pp f n)
        next
          case (Releasing i)
          then show ?thesis by (intro lock_releasingI [of _ _ i]) (simp_all add: P pp f n)
        qed
        moreover have "write_phase ?w' u"
          using invariantD(3) [OF inv, of u] unfolding write_phase_def P pp f by simp
        moreover have "kinds_ok ?w' u"
          using invariantD(4) [OF inv, of u] Cons write_end unfolding kinds_ok_def f by simp
        moreover have "chain_ok ?w' u"
          using c reg unfolding chain_ok_def waiting_def P pp n f by simp
        moreover have "fifo ?w' u"
          using invariantD(6) [OF inv, of u] lst unfolding fifo_def P pp by simp
        ultimately show ?thesis using same by (simp add: per_uid_def)
      qed
      with stale fr_ok f show ?thesis by (simp add: invariant_def)
    qed
  qed
qed

lemma invariant_frame:
  assumes inv: "invariant w"
    and "\<And>u. pend_wait w' u = pend_wait w u"
    and "\<And>u. pend_locked w' u = pend_locked w u"
    and "\<And>u ev. pend_done w' u ev = pend_done w u ev"
    and "suspended w' = suspended w"
    and "history w' = history w"
    and "transaction_of w' = transaction_of w"
    and "handles w' = handles w"
    and "resolved w' = resolved w"
    and "fresh w \<le> fresh w'"
    and "\<And>u. databases w u \<noteq> None \<Longrightarrow> databases w' u \<noteq> None"
  shows "invariant w'"
proof -
  have "per_uid w' u" for u
    by (rule per_uid_frame [OF invariantD(1) [OF inv, of u]])
       (simp_all add: assms frames_def listed_def enqueued_def started_def opened_def locked_def
          class_handles_def fun_eq_iff)
  moreover have "stale_ok w'"
    by (rule stale_ok_frame [OF invariantD(7) [OF inv]]) (simp_all add: assms)
  moreover have "fresh_ok w'"
    by (rule fresh_ok_frame [OF invariantD(8) [OF inv]]) (simp_all add: assms)
  ultimately show ?thesis by (simp add: invariant_def)
qed

lemma tick_inv:
  assumes inv: "invariant w"
  shows "invariant (tick J w)"
proof (cases "microtasks w")
  case Nil
  then show ?thesis using inv by (simp add: tick_def)
next
  case (Cons t ts)
  show ?thesis
  proof (cases t)
    case (LockDB_wait u h n)
    with Cons show ?thesis using tick_wait [OF inv] by simp
  next
    case (Use_locked u h n)
    with Cons show ?thesis using tick_locked [OF inv] by simp
  next
    case (Handler_done u ev h n r)
    with Cons show ?thesis using tick_done [OF inv] by simp
  next
    case (SaveClose_close h)
    have "invariant (w\<lparr>microtasks := ts\<rparr>)"
      by (rule invariant_frame [OF inv])
         (use Cons SaveClose_close in \<open>simp_all add: pend_wait_def pend_locked_def pend_done_def\<close>)
    from close_inv [OF this, of h] Cons SaveClose_close show ?thesis
      by (simp add: tick_def)
  qed
qed

lemma use_inv:
  assumes inv: "invariant w"
  shows "invariant (snd (use h w))"
proof (cases "handles w h")
  case None
  then show ?thesis using inv by (simp add: use_def)
next
  case (Some x)
  let ?c = "h_class x"
  show ?thesis
  proof (cases "h_locking x \<or> hasDB w ?c = None")
    case True
    with Some show ?thesis using inv by (auto simp: use_def split: option.splits)
  next
    case False
    then have reg: "databases w ?c \<noteq> None" by (simp add: hasDB_def)
    let ?n = "fresh w"
    let ?i = "(?c, h, ?n)"
    let ?w' = "snd (use h w)"
    have t: "?w' = record_event (Opened ?i) (enqueue_microtask (LockDB_wait ?c h ?n) (w\<lparr>fresh := Suc ?n\<rparr>))"
      using Some False by (auto simp: use_def split: option.splits)
    have f: "microtasks ?w' = microtasks w @ [LockDB_wait ?c h ?n]" "suspended ?w' = suspended w"
      "history ?w' = history w @ [Opened ?i]" "handles ?w' = handles w"
      "resolved ?w' = resolved w" "fresh ?w' = Suc (fresh w)"
      "databases ?w' = databases w"
      "transaction_of ?w' = transaction_of w"
      unfolding t by (simp_all add: fun_eq_iff transaction_of_def)
    have chx: "class_handles w ?c h = Some x" using Some by (simp add: class_handles_def)
    have "per_uid ?w' u'" for u'
    proof (cases "u' = ?c")
      case ne: False
      show ?thesis
        by (rule per_uid_frame [OF invariantD(1) [OF inv, of u']])
           (use ne in \<open>simp_all add: f proj_defs class_handles_def fun_eq_iff\<close>)
    next
      case same: True
      have P: "frames ?w' ?c ev = frames w ?c ev" "pend_locked ?w' ?c = pend_locked w ?c"
        "pend_done ?w' ?c ev = pend_done w ?c ev" "pend_wait ?w' ?c = pend_wait w ?c @ [?i]"
        "opened ?w' ?c = opened w ?c @ [?i]" "started ?w' ?c ev = started w ?c ev"
        "locked ?w' ?c = locked w ?c"
        "enqueued ?w' ?c ev = enqueued w ?c ev"
        "listed ?w' ?c ev = listed w ?c ev"
        "class_handles ?w' = class_handles w"
        for ev
        by (simp_all add: f proj_defs class_handles_def fun_eq_iff)
      have n: "nolock ?w' ?c = nolock w ?c" "\<And>i. unheld ?w' i = unheld w i" "\<And>i. holder ?w' i = holder w i"
        by (simp_all add: nolock_def unheld_def holder_def P)
      have "lock_phase ?w' ?c"
        using invariantD(2) [OF inv, of ?c]
      proof (cases rule: lock_phase_cases)
        case Idle
        then show ?thesis by (intro lock_idleI) (simp_all add: P f n)
      next
        case (Announced i)
        then show ?thesis by (intro lock_announcedI [of _ _ i]) (simp_all add: P f n)
      next
        case (Held i)
        then show ?thesis by (intro lock_heldI [of _ _ i]) (simp_all add: P f n)
      next
        case (Releasing i)
        then show ?thesis by (intro lock_releasingI [of _ _ i]) (simp_all add: P f n)
      qed
      moreover have "write_phase ?w' ?c"
        using invariantD(3) [OF inv, of ?c] unfolding write_phase_def P f by simp
      moreover have "kinds_ok ?w' ?c"
        using invariantD(4) [OF inv, of ?c] unfolding kinds_ok_def f by simp
      moreover have "chain_ok ?w' ?c"
      proof -
        note c = invariantD(5) [OF inv, of ?c]
        have wt: "waiting ?w' ?c = waiting w ?c @ [?i]" by (simp add: waiting_def P)
        have new: "?i \<notin> set (frames w ?c unlock)" "?i \<notin> set (waiting w ?c)"
          using chain_okD(4) [OF c, of ?i] by auto
        have nr: "?i \<notin> resolved w" using invariantD(8) [OF inv] by (auto simp: fresh_ok_def)
        have uh: "unheld w ?i"
          using invariantD(7) [OF inv] unfolding unheld_def stale_ok_def class_handles_def
          by (fastforce split: option.splits if_splits)
        have 3: "\<forall>j \<in> set (frames ?w' ?c unlock @ pend_locked ?w' ?c @ waiting ?w' ?c).
              fst j = ?c \<and> snd (snd j) < fresh ?w' \<and> (\<exists>y. class_handles ?w' ?c (fst (snd j)) = Some y)"
        proof
          fix j assume "j \<in> set (frames ?w' ?c unlock @ pend_locked ?w' ?c @ waiting ?w' ?c)"
          then consider "j = ?i" | "j \<in> set (frames w ?c unlock) \<or> j \<in> set (pend_locked w ?c) \<or> j \<in> set (waiting w ?c)"
            by (auto simp: P wt)
          then show "fst j = ?c \<and> snd (snd j) < fresh ?w' \<and> (\<exists>y. class_handles ?w' ?c (fst (snd j)) = Some y)"
          proof cases
            case 1
            then show ?thesis using chx by (simp add: f P)
          next
            case 2
            then have "fst j = ?c" using uid_of_proj(1,2,3,5) [of j w ?c] by (auto simp: waiting_def)
            with chain_okD(4) [OF c 2] show ?thesis by (auto simp: f P)
          qed
        qed
        show ?thesis
          unfolding chain_ok_def
          using chain_okD(1,2,3) [OF c] new nr uh reg 3 by (auto simp: wt P f n)
      qed
      moreover have "fifo ?w' ?c"
        using invariantD(6) [OF inv, of ?c] unfolding fifo_def P by simp
      ultimately show ?thesis using same by (simp add: per_uid_def)
    qed
    moreover have "stale_ok ?w'"
      by (rule stale_ok_frame [OF invariantD(7) [OF inv]]) (simp_all add: f)
    moreover have "fresh_ok ?w'"
      by (rule fresh_ok_frame [OF invariantD(8) [OF inv]]) (simp_all add: f)
    ultimately show ?thesis by (simp add: invariant_def)
  qed
qed

lemma wait_idle_write:
  assumes "databases w u \<noteq> None" and "t_uuid (transaction_of w u ev) = None"
    and "t_list (transaction_of w u ev) = []"
  shows "\<exists>r. microtasks (wait J u ev h WriteTodo n w) = microtasks w @ [Handler_done u ev h n (Some r)]"
    and "suspended (wait J u ev h WriteTodo n w) = suspended w"
    and "history (wait J u ev h WriteTodo n w) =
           history w @ [Enqueued ev (u, h, n), Started ev (u, h, n)]"
    and "handles (wait J u ev h WriteTodo n w) = handles w"
    and "resolved (wait J u ev h WriteTodo n w) = resolved w"
    and "fresh (wait J u ev h WriteTodo n w) = fresh w"
    and "(databases (wait J u ev h WriteTodo n w) u' = None) = (databases w u' = None)"
    and "transaction_of (wait J u ev h WriteTodo n w) u' ev' =
           (if u' = u \<and> ev' = ev then \<lparr>t_list = [], t_uuid = Some h\<rparr> else transaction_of w u' ev')"
proof -
  let ?w2 = "record_event (Enqueued ev (u, h, n))
           (upd_transaction u ev (\<lambda>t. t\<lparr>t_list := t_list t @ [(WriteTodo, h, n)]\<rparr>) w)"
  have w: "wait J u ev h WriteTodo n w = on_event J u ev ?w2"
    using assms by (simp add: wait_def Let_def)
  have a: "databases ?w2 u \<noteq> None" using assms by simp
  have b: "t_list (transaction_of ?w2 u ev) = (WriteTodo, h, n) # []" using assms by simp
  note f = on_event_write [OF a b, of J]
  show "\<exists>r. microtasks (wait J u ev h WriteTodo n w) = microtasks w @ [Handler_done u ev h n (Some r)]"
    unfolding w using f(1) by simp
  show "suspended (wait J u ev h WriteTodo n w) = suspended w"
    and "history (wait J u ev h WriteTodo n w) =
           history w @ [Enqueued ev (u, h, n), Started ev (u, h, n)]"
    and "handles (wait J u ev h WriteTodo n w) = handles w"
    and "resolved (wait J u ev h WriteTodo n w) = resolved w"
    and "fresh (wait J u ev h WriteTodo n w) = fresh w"
    and "(databases (wait J u ev h WriteTodo n w) u' = None) = (databases w u' = None)"
    and "transaction_of (wait J u ev h WriteTodo n w) u' ev' =
           (if u' = u \<and> ev' = ev then \<lparr>t_list = [], t_uuid = Some h\<rparr> else transaction_of w u' ev')"
    unfolding w by (simp_all add: f)
qed

lemma wait_write_inv:
  assumes inv: "invariant w" and reg: "databases w u \<noteq> None"
  shows "invariant (wait J u write_end h WriteTodo n w)"
proof -
  let ?i = "(u, h, n)"
  let ?w' = "wait J u write_end h WriteTodo n w"
  let ?T = "transaction_of w u write_end"
  have lockp: "lock_phase ?w' u"
    if "frames ?w' u unlock = frames w u unlock" "pend_locked ?w' u = pend_locked w u"
      "pend_done ?w' u unlock = pend_done w u unlock"
      "transaction_of ?w' u unlock = transaction_of w u unlock"
      "class_handles ?w' = class_handles w" "resolved ?w' = resolved w"
  proof -
    have n: "nolock ?w' u = nolock w u" "\<And>i. unheld ?w' i = unheld w i" "\<And>i. holder ?w' i = holder w i"
      by (simp_all add: nolock_def unheld_def holder_def that)
    from invariantD(2) [OF inv, of u] show ?thesis
    proof (cases rule: lock_phase_cases)
      case Idle
      then show ?thesis by (intro lock_idleI) (simp_all add: that n)
    next
      case (Announced i)
      then show ?thesis by (intro lock_announcedI [of _ _ i]) (simp_all add: that n)
    next
      case (Held i)
      then show ?thesis by (intro lock_heldI [of _ _ i]) (simp_all add: that n)
    next
      case (Releasing i)
      then show ?thesis by (intro lock_releasingI [of _ _ i]) (simp_all add: that n)
    qed
  qed
  have chain: "chain_ok ?w' u"
    if "frames ?w' u unlock = frames w u unlock" "pend_locked ?w' u = pend_locked w u"
      "pend_wait ?w' u = pend_wait w u" "listed ?w' u unlock = listed w u unlock"
      "class_handles ?w' = class_handles w" "resolved ?w' = resolved w" "fresh ?w' = fresh w"
      "databases ?w' u \<noteq> None"
  proof -
    have n: "\<And>i. unheld ?w' i = unheld w i" by (simp_all add: unheld_def that)
    show ?thesis
      using invariantD(5) [OF inv, of u] that(8) unfolding chain_ok_def waiting_def that(1-7) n by simp
  qed
  show ?thesis
  proof (cases "t_uuid ?T = None")
    case False
    then have t': "?w' = record_event (Enqueued write_end ?i)
           (upd_transaction u write_end (\<lambda>t. t\<lparr>t_list := t_list t @ [(WriteTodo, h, n)]\<rparr>) w)"
      by (simp add: wait_busy)
    have f: "microtasks ?w' = microtasks w" "suspended ?w' = suspended w"
      "history ?w' = history w @ [Enqueued write_end ?i]" "handles ?w' = handles w"
      "resolved ?w' = resolved w" "fresh ?w' = fresh w"
      "\<And>u'. (databases ?w' u' = None) = (databases w u' = None)"
      "\<And>u' ev. transaction_of ?w' u' ev =
          (if u' = u \<and> ev = write_end
           then ?T\<lparr>t_list := t_list ?T @ [(WriteTodo, h, n)]\<rparr>
           else transaction_of w u' ev)"
      unfolding t' using reg by simp_all
    have "per_uid ?w' u'" for u'
    proof (cases "u' = u")
      case ne: False
      show ?thesis
        by (rule per_uid_frame [OF invariantD(1) [OF inv, of u']])
           (use ne in \<open>simp_all add: f proj_defs class_handles_def fun_eq_iff\<close>)
    next
      case True
      have P: "frames ?w' u ev = frames w u ev" "pend_locked ?w' u = pend_locked w u"
        "pend_done ?w' u ev = pend_done w u ev" "pend_wait ?w' u = pend_wait w u"
        "opened ?w' u = opened w u" "started ?w' u ev = started w u ev" "locked ?w' u = locked w u"
        "enqueued ?w' u unlock = enqueued w u unlock"
        "enqueued ?w' u write_end = enqueued w u write_end @ [?i]"
        "listed ?w' u write_end = listed w u write_end @ [?i]"
        "listed ?w' u unlock = listed w u unlock"
        "class_handles ?w' = class_handles w"
        for ev
        by (simp_all add: f proj_defs class_handles_def fun_eq_iff)
      have "lock_phase ?w' u" by (rule lockp) (simp_all add: P f)
      moreover have "write_phase ?w' u"
        using invariantD(3) [OF inv, of u] False unfolding write_phase_def P f by simp
      moreover have "kinds_ok ?w' u"
        using invariantD(4) [OF inv, of u] unfolding kinds_ok_def f by simp
      moreover have "chain_ok ?w' u" by (rule chain) (use reg in \<open>simp_all add: P f\<close>)
      moreover have "fifo ?w' u"
        using invariantD(6) [OF inv, of u] unfolding fifo_def P by simp
      ultimately show ?thesis using True by (simp add: per_uid_def)
    qed
    moreover have "stale_ok ?w'"
      by (rule stale_ok_frame [OF invariantD(7) [OF inv]]) (simp_all add: f)
    moreover have "fresh_ok ?w'"
      by (rule fresh_ok_frame [OF invariantD(8) [OF inv]]) (simp_all add: f)
    ultimately show ?thesis by (simp add: invariant_def)
  next
    case True
    with invariantD(3) [OF inv, of u]
    have idle: "frames w u write_end = []" "pend_done w u write_end = []" "t_list ?T = []"
      by (auto simp: write_phase_def)
    note g = wait_idle_write [OF reg True idle(3), of J h n]
    from g(1) obtain r where mt: "microtasks ?w' = microtasks w @ [Handler_done u write_end h n (Some r)]"
      by blast
    have f: "suspended ?w' = suspended w"
      "history ?w' = history w @ [Enqueued write_end ?i, Started write_end ?i]"
      "handles ?w' = handles w" "resolved ?w' = resolved w" "fresh ?w' = fresh w"
      "\<And>u'. (databases ?w' u' = None) = (databases w u' = None)"
      "\<And>u' ev. transaction_of ?w' u' ev =
          (if u' = u \<and> ev = write_end then \<lparr>t_list = [], t_uuid = Some h\<rparr> else transaction_of w u' ev)"
      using g by simp_all
    have "per_uid ?w' u'" for u'
    proof (cases "u' = u")
      case ne: False
      show ?thesis
        by (rule per_uid_frame [OF invariantD(1) [OF inv, of u']])
           (use ne in \<open>simp_all add: mt f proj_defs class_handles_def fun_eq_iff\<close>)
    next
      case same: True
      have P: "frames ?w' u ev = frames w u ev" "pend_locked ?w' u = pend_locked w u"
        "pend_done ?w' u unlock = pend_done w u unlock" "pend_done ?w' u write_end = [?i]"
        "pend_wait ?w' u = pend_wait w u"
        "opened ?w' u = opened w u" "started ?w' u unlock = started w u unlock"
        "started ?w' u write_end = started w u write_end @ [?i]"
        "locked ?w' u = locked w u"
        "enqueued ?w' u unlock = enqueued w u unlock"
        "enqueued ?w' u write_end = enqueued w u write_end @ [?i]"
        "listed ?w' u write_end = []"
        "listed ?w' u unlock = listed w u unlock"
        "class_handles ?w' = class_handles w"
        for ev
        using idle by (simp_all add: mt f proj_defs class_handles_def fun_eq_iff)
      have "lock_phase ?w' u" by (rule lockp) (simp_all add: P f)
      moreover have "write_phase ?w' u"
        using idle unfolding write_phase_def P f by simp
      moreover have "kinds_ok ?w' u"
        using invariantD(4) [OF inv, of u] unfolding kinds_ok_def f by simp
      moreover have "chain_ok ?w' u" by (rule chain) (use reg in \<open>simp_all add: P f\<close>)
      moreover have "fifo ?w' u"
      proof -
        have l0: "listed w u write_end = []" using idle by (simp add: listed_def)
        show ?thesis
          using invariantD(6) [OF inv, of u] unfolding fifo_def P l0 by simp
      qed
      ultimately show ?thesis using same by (simp add: per_uid_def)
    qed
    moreover have "stale_ok ?w'"
      by (rule stale_ok_frame [OF invariantD(7) [OF inv]]) (simp_all add: f)
    moreover have "fresh_ok ?w'"
      by (rule fresh_ok_frame [OF invariantD(8) [OF inv]]) (simp_all add: f)
    ultimately show ?thesis by (simp add: invariant_def)
  qed
qed

lemma save_inv:
  assumes inv: "invariant w"
  shows "invariant (snd (save J h w))"
proof (cases "handles w h")
  case None
  then show ?thesis using inv by (simp add: save_def)
next
  case (Some x)
  show ?thesis
  proof (cases "h_locking x \<and> databases w (h_class x) \<noteq> None")
    case False
    with Some show ?thesis using inv
      by (auto simp: save_def getDBStatus_def hasDB_def split: option.splits)
  next
    case True
    have i0: "invariant (w\<lparr>fresh := Suc (fresh w)\<rparr>)"
      by (rule invariant_frame [OF inv]) (simp_all add: pend_wait_def pend_locked_def pend_done_def)
    have "databases (w\<lparr>fresh := Suc (fresh w)\<rparr>) (h_class x) \<noteq> None" using True by simp
    from wait_write_inv [OF i0 this, of J h "fresh w"] Some True show ?thesis
      by (auto simp: save_def getDBStatus_def hasDB_def split: option.splits)
  qed
qed

lemma saveClose_inv:
  assumes inv: "invariant w"
  shows "invariant (snd (saveClose J h w))"
proof -
  note s = save_inv [OF inv, of J h]
  have a: "invariant (w1\<lparr>awaiting_save := aw\<rparr>)" if "invariant w1" for w1 aw
    by (rule invariant_frame [OF that]) (simp_all add: pend_wait_def pend_locked_def pend_done_def)
  show ?thesis
  proof (cases "save J h w")
    case (Pair res w1)
    with s have "invariant w1" by simp
    with Pair inv a show ?thesis
      by (cases res) (auto simp: saveClose_def split: option.splits)
  qed
qed

lemma asyncDispose_inv:
  assumes inv: "invariant w"
  shows "invariant (snd (asyncDispose J h w))"
  using inv saveClose_inv [OF inv, of J h]
  by (auto simp: asyncDispose_def split: option.splits)

lemma data_get_inv:
  assumes inv: "invariant w"
  shows "invariant (snd (data_get h w))"
proof -
  have a: "invariant (w\<lparr>databases := (databases w)(u \<mapsto> st\<lparr>db_data := d\<rparr>)\<rparr>)"
    if "databases w u = Some st" for u st d
    by (rule invariant_frame [OF inv])
       (use that in \<open>auto simp add: pend_wait_def pend_locked_def pend_done_def transaction_of_def fun_eq_iff\<close>)
  show ?thesis
    using inv a
    by (auto simp: data_get_def setData_def getData_def getDBStatus_def hasDB_def
             split: option.splits sum.splits)
qed

lemma data_set_inv:
  assumes inv: "invariant w"
  shows "invariant (snd (data_set h d w))"
proof -
  have a: "invariant (w\<lparr>databases := (databases w)(u \<mapsto> st\<lparr>db_data := d\<rparr>)\<rparr>)"
    if "databases w u = Some st" for u st d
    by (rule invariant_frame [OF inv])
       (use that in \<open>auto simp add: pend_wait_def pend_locked_def pend_done_def transaction_of_def fun_eq_iff\<close>)
  show ?thesis
    using inv a
    by (auto simp: data_set_def setData_def getData_def getDBStatus_def hasDB_def
             split: option.splits sum.splits)
qed

lemma root_path_inv:
  assumes inv: "invariant w"
  shows "invariant (snd (root_path p w))"
proof -
  have a: "invariant (w\<lparr>w_path := q\<rparr>)" for q
    by (rule invariant_frame [OF inv]) (simp_all add: pend_wait_def pend_locked_def pend_done_def)
  show ?thesis using inv a by (auto simp: root_path_def split: option.splits)
qed

lemma add_handle_inv:
  assumes inv: "invariant w" and reg: "databases w u \<noteq> None"
  shows "invariant (w\<lparr>handles := (handles w)(fresh w \<mapsto>
            \<lparr>h_class = u, h_default = d, h_locking = False, h_unlockDB = Thrower\<rparr>),
          fresh := Suc (fresh w)\<rparr>)"
    (is "invariant ?w'")
proof -
  let ?h0 = "fresh w"
  let ?x0 = "\<lparr>h_class = u, h_default = d, h_locking = False, h_unlockDB = Thrower\<rparr>"
  have none: "handles w ?h0 = None"
    using invariantD(8) [OF inv] unfolding fresh_ok_def by (cases "handles w ?h0") auto
  have f: "microtasks ?w' = microtasks w" "suspended ?w' = suspended w"
    "history ?w' = history w" "handles ?w' = (handles w)(?h0 \<mapsto> ?x0)"
    "resolved ?w' = resolved w" "fresh ?w' = Suc (fresh w)"
    "databases ?w' = databases w" "transaction_of ?w' = transaction_of w"
    by (simp_all add: transaction_of_def fun_eq_iff)
  have ch: "class_handles ?w' u' = (if u' = u then (class_handles w u)(?h0 \<mapsto> ?x0) else class_handles w u')" for u'
    using none by (auto simp: class_handles_def fun_eq_iff)
  have ch0: "class_handles w u' ?h0 = None" for u' using none by (simp add: class_handles_def)
  have ch': "class_handles (w\<lparr>handles := (handles w)(?h0 \<mapsto> ?x0)\<rparr>) u' =
      (if u' = u then (class_handles w u)(?h0 \<mapsto> ?x0) else class_handles w u')" for u'
    using ch [of u'] by simp
  have "per_uid ?w' u'" for u'
  proof (cases "u' = u")
    case ne: False
    show ?thesis
      by (rule per_uid_frame [OF invariantD(1) [OF inv, of u']])
         (use ne in \<open>simp_all add: proj_defs ch'\<close>)
  next
    case same: True
    have P: "frames ?w' u ev = frames w u ev" "pend_locked ?w' u = pend_locked w u"
      "pend_done ?w' u ev = pend_done w u ev" "pend_wait ?w' u = pend_wait w u"
      "opened ?w' u = opened w u" "started ?w' u ev = started w u ev" "locked ?w' u = locked w u"
      "enqueued ?w' u ev = enqueued w u ev" "listed ?w' u ev = listed w u ev"
      "waiting ?w' u = waiting w u"
      for ev
      by (simp_all add: proj_defs waiting_def)
    have old: "class_handles w u h' = Some y \<Longrightarrow> class_handles ?w' u h' = Some y" for h' y
      using ch0 [of u] by (cases "h' = ?h0") (simp_all add: ch ch')
    have new: "class_handles ?w' u h' = Some y \<Longrightarrow> y = ?x0 \<or> class_handles w u h' = Some y" for h' y
      by (cases "h' = ?h0") (simp_all add: ch ch')
    have n: "nolock ?w' u = nolock w u"
    proof
      assume a: "nolock ?w' u"
      show "nolock w u" unfolding nolock_def
      proof (intro allI impI)
        fix h' y assume "class_handles w u h' = Some y"
        then have "class_handles ?w' u h' = Some y" by (rule old)
        with a show "\<not> h_locking y" unfolding nolock_def by blast
      qed
    next
      assume a: "nolock w u"
      show "nolock ?w' u" unfolding nolock_def
      proof (intro allI impI)
        fix h' y assume "class_handles ?w' u h' = Some y"
        from new [OF this] a show "\<not> h_locking y" unfolding nolock_def by auto
      qed
    qed
    have uh: "unheld ?w' i = unheld w i" if "fst i = u" for i
    proof
      assume a: "unheld ?w' i"
      show "unheld w i" unfolding unheld_def that
      proof (intro allI impI)
        fix h' y assume "class_handles w u h' = Some y"
        then have "class_handles ?w' u h' = Some y" by (rule old)
        with a that show "h_unlockDB y \<noteq> Resolver i" unfolding unheld_def by blast
      qed
    next
      assume a: "unheld w i"
      show "unheld ?w' i" unfolding unheld_def that
      proof (intro allI impI)
        fix h' y assume "class_handles ?w' u h' = Some y"
        from new [OF this] a that show "h_unlockDB y \<noteq> Resolver i" unfolding unheld_def by auto
      qed
    qed
    have ho: "holder ?w' i" if "fst i = u" "holder w i" for i
    proof -
      from that obtain y where y: "class_handles w u (fst (snd i)) = Some y" "h_locking y"
        "h_unlockDB y = Resolver i"
        and only: "\<And>h' z. class_handles w u h' = Some z \<Longrightarrow> h_locking z \<Longrightarrow> h' = fst (snd i)"
        unfolding holder_def by auto
      have "class_handles ?w' u (fst (snd i)) = Some y" using y(1) by (rule old)
      moreover have "h' = fst (snd i)" if "class_handles ?w' u h' = Some z" "h_locking z" for h' z
        using new [OF that(1)] that(2) only by auto
      ultimately show ?thesis using y that(1) unfolding holder_def by blast
    qed
    have fr: "frames w u unlock = [i] \<Longrightarrow> fst i = u" for i
      using uid_of_proj(1) [of i w u unlock] by simp
    have "lock_phase ?w' u"
      using invariantD(2) [OF inv, of u]
    proof (cases rule: lock_phase_cases)
      case Idle
      then show ?thesis by (intro lock_idleI) (simp_all add: P f n)
    next
      case (Announced i)
      then show ?thesis using fr [of i] by (intro lock_announcedI [of _ _ i]) (simp_all add: P f n uh)
    next
      case (Held i)
      then show ?thesis using fr [of i] by (intro lock_heldI [of _ _ i]) (simp_all add: P f n ho)
    next
      case (Releasing i)
      then show ?thesis by (intro lock_releasingI [of _ _ i]) (simp_all add: P f n)
    qed
    moreover have "write_phase ?w' u"
      using invariantD(3) [OF inv, of u] unfolding write_phase_def P f by simp
    moreover have "kinds_ok ?w' u"
      using invariantD(4) [OF inv, of u] unfolding kinds_ok_def f by simp
    moreover have "chain_ok ?w' u"
    proof -
      note c = invariantD(5) [OF inv, of u]
      have 2: "\<forall>j \<in> set (waiting ?w' u). j \<notin> resolved ?w' \<and> unheld ?w' j"
      proof
        fix j assume j: "j \<in> set (waiting ?w' u)"
        then have jw: "j \<in> set (waiting w u)" by (simp add: P)
        have "fst j = u" using jw uid_of_proj(2,5) [of j w u] by (auto simp: waiting_def)
        with chain_okD(2,3) [OF c jw] show "j \<notin> resolved ?w' \<and> unheld ?w' j" by (simp add: uh)
      qed
      have 3: "\<forall>j \<in> set (frames ?w' u unlock @ pend_locked ?w' u @ waiting ?w' u).
          fst j = u \<and> snd (snd j) < fresh ?w' \<and> (\<exists>y. class_handles ?w' u (fst (snd j)) = Some y)"
      proof
        fix j assume "j \<in> set (frames ?w' u unlock @ pend_locked ?w' u @ waiting ?w' u)"
        then have j: "j \<in> set (frames w u unlock) \<or> j \<in> set (pend_locked w u) \<or> j \<in> set (waiting w u)"
          by (auto simp: P)
        then have "fst j = u" using uid_of_proj(1,2,3,5) [of j w u] by (auto simp: waiting_def)
        with chain_okD(4) [OF c j] show "fst j = u \<and> snd (snd j) < fresh ?w' \<and> (\<exists>y. class_handles ?w' u (fst (snd j)) = Some y)"
          by (auto simp: ch ch')
      qed
      show ?thesis
        unfolding chain_ok_def
        using chain_okD(1) [OF c] reg 2 3 by (simp add: P)
    qed
    moreover have "fifo ?w' u"
      using invariantD(6) [OF inv, of u] unfolding fifo_def P by simp
    ultimately show ?thesis using same by (simp add: per_uid_def)
  qed
  moreover have "stale_ok ?w'"
    unfolding stale_ok_def
  proof (intro allI impI)
    fix h' y j
    assume a: "handles ?w' h' = Some y \<and> h_unlockDB y = Resolver j"
    then have "h' \<noteq> ?h0" by (auto split: if_splits)
    with a have "handles w h' = Some y \<and> h_unlockDB y = Resolver j" by simp
    with invariantD(7) [OF inv]
    have "fst j = h_class y \<and> snd (snd j) < fresh w \<and> (\<not> h_locking y \<longrightarrow> j \<in> resolved w)"
      unfolding stale_ok_def by blast
    then show "fst j = h_class y \<and> snd (snd j) < fresh ?w' \<and> (\<not> h_locking y \<longrightarrow> j \<in> resolved ?w')"
      by auto
  qed
  moreover have "fresh_ok ?w'"
    using invariantD(8) [OF inv] reg unfolding fresh_ok_def by (auto simp: less_Suc_eq)
  ultimately show ?thesis by (simp add: invariant_def)
qed

lemma regist_inv:
  assumes inv: "invariant w"
  shows "invariant (regist J u w)" and "databases (regist J u w) u \<noteq> None"
    and "fresh (regist J u w) = fresh w" and "handles (regist J u w) = handles w"
proof -
  show "invariant (regist J u w)"
  proof (cases "databases w u")
    case None
    have "invariant (w\<lparr>databases := (databases w)(u \<mapsto> new_status J w u)\<rparr>)"
      by (rule invariant_frame [OF inv])
         (use None in \<open>auto simp add: pend_wait_def pend_locked_def pend_done_def transaction_of_def
              new_status_def fun_eq_iff\<close>)
    with None show ?thesis by (simp add: regist_def hasDB_def)
  next
    case (Some st)
    with inv show ?thesis by (simp add: regist_def hasDB_def)
  qed
  show "databases (regist J u w) u \<noteq> None" "fresh (regist J u w) = fresh w"
    "handles (regist J u w) = handles w"
    by (auto simp: regist_def hasDB_def split: option.splits)
qed

lemma construct_inv:
  assumes inv: "invariant w"
  shows "invariant (snd (construct J u hp dv w))"
proof (cases "copyData J hp dv")
  case (Inl err)
  with regist_inv(1) [OF inv, of J u] show ?thesis by (simp add: construct_def Let_def)
next
  case (Inr d)
  from add_handle_inv [OF regist_inv(1,2) [OF inv, of J u], of d] Inr
  show ?thesis by (simp add: construct_def Let_def)
qed

lemma step_inv:
  assumes "invariant w"
  shows "invariant (step J a w)"
  using assms
  by (cases a)
     (simp_all add: construct_inv use_inv close_inv save_inv saveClose_inv asyncDispose_inv
        data_get_inv data_set_inv root_path_inv tick_inv)

lemma reachable_invariant:
  assumes "reachable J w"
  shows "invariant w"
  using assms by (induction rule: reachable.induct) (simp_all add: invariant_init step_inv)

lemma reachable_run:
  assumes "reachable J w"
  shows "reachable J (run J as w)"
  using assms by (induction as arbitrary: w) (auto intro: reachable.next_step)

subsection \<open>The handles along the steps\<close>

lemma handles_run_todo [simp]: "handles (run_todo J u ev job w) = handles w"
  by (auto simp: run_todo_def Let_def case_prod_beta split: todo.splits)

lemma handles_on_event [simp]: "handles (on_event J u ev w) = handles w"
  by (auto simp: on_event_def Let_def split: list.splits)

lemma handles_wait [simp]: "handles (wait J u ev h td n w) = handles w"
  by (auto simp: wait_def Let_def)

lemma handles_save [simp]: "handles (snd (save J h w)) = handles w"
  by (auto simp: save_def split: option.splits sum.splits)

lemma handles_saveClose [simp]: "handles (snd (saveClose J h w)) = handles w"
proof -
  have "handles (snd (save J h w)) = handles w" by simp
  then show ?thesis
    by (cases "save J h w"; cases "fst (save J h w)")
       (auto simp: saveClose_def split: option.splits)
qed

lemma handles_asyncDispose [simp]: "handles (snd (asyncDispose J h w)) = handles w"
  by (auto simp: asyncDispose_def split: option.splits)

lemma handles_data [simp]:
  "handles (snd (data_get h w)) = handles w"
  "handles (snd (data_set h d w)) = handles w"
  "handles (snd (root_path p w)) = handles w"
  "handles (snd (use h w)) = handles w"
  by (auto simp: data_get_def data_set_def setData_def root_path_def use_def
        enqueue_microtask_def record_event_def
        split: option.splits sum.splits prod.splits)

lemma handles_close:
  "handles (snd (close h' w)) h = (if h = h' then handles (snd (close h' w)) h' else handles w h)"
  by (auto simp: close_def Let_def resolver_def split: option.splits unlockfn.splits)

lemma locking_kept:
  assumes inv: "invariant w" and hx: "handles w h = Some x" and l: "h_locking x"
    and nc: "\<not> closes a w h"
  shows "\<exists>x'. handles (step J a w) h = Some x' \<and> h_locking x' \<and> h_class x' = h_class x"
proof (cases a)
  case (New u hp dv)
  have "h < fresh w" using invariantD(8) [OF inv] hx by (auto simp: fresh_ok_def)
  then show ?thesis using New hx l regist_inv(3,4) [OF inv, of J u]
    by (auto simp: construct_def Let_def split: sum.splits)
next
  case (Close h')
  with nc have "h' \<noteq> h" by simp
  with Close hx l show ?thesis using handles_close [of h' w h] by simp
next
  case Tick
  show ?thesis
  proof (cases "microtasks w")
    case Nil
    with Tick hx l show ?thesis by (simp add: tick_def)
  next
    case (Cons t ts)
    show ?thesis
    proof (cases t)
      case (LockDB_wait u h' n)
      with Tick Cons hx l show ?thesis by (simp add: tick_def)
    next
      case (Use_locked u h' n)
      show ?thesis
      proof (cases "h' = h")
        case True
        with Tick Cons Use_locked hx l show ?thesis by (simp add: tick_def record_event_def)
      next
        case False
        with Tick Cons Use_locked hx l show ?thesis
          by (auto simp: tick_def record_event_def split: option.splits)
      qed
    next
      case (Handler_done u ev h' n r)
      with Tick Cons hx l show ?thesis by (simp add: tick_def)
    next
      case (SaveClose_close h')
      with nc Tick Cons have "h' \<noteq> h" by simp
      with Tick Cons SaveClose_close hx l show ?thesis
        using handles_close [of h' "w\<lparr>microtasks := ts\<rparr>" h] by (simp add: tick_def)
    qed
  qed
qed (use hx l in simp_all)

lemma exclusive:
  assumes inv: "invariant w" and "handles w h1 = Some x1" and "handles w h2 = Some x2"
    and "h_locking x1" and "h_locking x2" and "h_class x1 = h_class x2"
  shows "h1 = h2"
proof -
  let ?c = "h_class x1"
  have c1: "class_handles w ?c h1 = Some x1" and c2: "class_handles w ?c h2 = Some x2"
    using assms by (simp_all add: class_handles_def)
  with assms(4) have "\<not> nolock w ?c" unfolding nolock_def by blast
  with invariantD(2) [OF inv, of ?c] obtain i where i: "frames w ?c unlock = [i]" "holder w i"
    by (cases rule: lock_phase_cases) auto
  have "fst i = ?c" using uid_of_proj(1) [of i w ?c unlock] i(1) by simp
  with i(2) c1 c2 assms(4,5) have "h1 = fst (snd i)" "h2 = fst (snd i)"
    unfolding holder_def by auto
  then show ?thesis by simp
qed

section \<open>Mutual exclusion and order\<close>

text \<open>
  C1.  In every state the process can reach, two locked handles of one class, that is,
  of one identifier, are the same handle.  A locked handle stays locked through every
  step that is not its own \<open>close\<close> (called by the program, or by its \<open>saveClose\<close>
  once the save is done), and after such a step no other handle of the class is locked:
  the \<open>use\<close> of another handle does not complete before the holder closes.
\<close>

theorem mutual_exclusion:
  assumes "reachable J w"
  shows "(\<forall>h1 h2 x1 x2. handles w h1 = Some x1 \<and> handles w h2 = Some x2 \<and>
            h_locking x1 \<and> h_locking x2 \<and> h_class x1 = h_class x2 \<longrightarrow> h1 = h2) \<and>
         (\<forall>h x a. handles w h = Some x \<and> h_locking x \<and> \<not> closes a w h \<longrightarrow>
            (\<exists>x'. handles (step J a w) h = Some x' \<and> h_locking x' \<and> h_class x' = h_class x) \<and>
            (\<forall>h2 x2. handles (step J a w) h2 = Some x2 \<and> h_class x2 = h_class x \<and> h2 \<noteq> h \<longrightarrow>
                \<not> h_locking x2))"
proof -
  have inv: "invariant w" using assms by (rule reachable_invariant)
  have inv': "invariant (step J a w)" for a by (rule step_inv [OF inv])
  have 1: "h1 = h2" if "handles w h1 = Some x1" "handles w h2 = Some x2"
      "h_locking x1" "h_locking x2" "h_class x1 = h_class x2" for h1 h2 x1 x2
    using exclusive [OF inv that] .
  have 2: "(\<exists>x'. handles (step J a w) h = Some x' \<and> h_locking x' \<and> h_class x' = h_class x) \<and>
            (\<forall>h2 x2. handles (step J a w) h2 = Some x2 \<and> h_class x2 = h_class x \<and> h2 \<noteq> h \<longrightarrow>
                \<not> h_locking x2)"
    if "handles w h = Some x" "h_locking x" "\<not> closes a w h" for h x a
  proof -
    from locking_kept [OF inv that, of J] obtain x' where
      x': "handles (step J a w) h = Some x'" "h_locking x'" "h_class x' = h_class x" by blast
    have "\<not> h_locking x2" if "handles (step J a w) h2 = Some x2" "h_class x2 = h_class x" "h2 \<noteq> h" for h2 x2
    proof
      assume "h_locking x2"
      from exclusive [OF inv' that(1) x'(1) this x'(2)] that(2,3) x'(3) show False by simp
    qed
    with x' show ?thesis by blast
  qed
  from 1 2 show ?thesis by blast
qed

lemma reachable_w_two: "reachable text_codec w_two"
  unfolding w_two_def by (rule reachable_run) (rule reachable.start)

theorem mutual_exclusion_witness:
  "map_option h_locking (handles w_two 0) = Some True \<and>
   map_option h_locking (handles w_two 1) = Some False \<and>
   map_option h_locking (handles (step text_codec Tick w_two) 0) = Some True"
proof -
  let ?x0 = "\<lparr>h_class = ''SillyDB.a'', h_default = JNum 1, h_locking = True,
               h_unlockDB = Resolver (''SillyDB.a'', 0, 2)\<rparr>"
  have a: "handles w_two 0 = Some ?x0" by code_simp
  have b: "h_locking ?x0" by simp
  have c: "\<not> closes Tick w_two 0" by code_simp
  have d: "map_option h_class (handles w_two 1) = Some ''SillyDB.a''" by code_simp
  then obtain x1 where x1: "handles w_two 1 = Some x1" "h_class x1 = ''SillyDB.a''" by auto
  from mutual_exclusion [OF reachable_w_two] a b x1
  have "h_locking x1 \<longrightarrow> (0::nat) = 1" by (metis handle.select_convs(1))
  then have e: "\<not> h_locking x1" by simp
  from mutual_exclusion [OF reachable_w_two] a b c
  have "\<exists>x'. handles (step text_codec Tick w_two) 0 = Some x' \<and> h_locking x'" by blast
  with a x1 e show ?thesis by auto
qed



section \<open>Reading the document\<close>

subsection \<open>What leaves the document in place\<close>

lemma getData_simps [simp]:
  "getData (upd_transaction u' ev f w) u = getData w u"
  "getData (enqueue_microtask t w) u = getData w u"
  "getData (record_event x w) u = getData w u"
  "getData (resolver i w) u = getData w u"
  "getData (deliver i r w) u = getData w u"
  "getData (w\<lparr>microtasks := ms\<rparr>) u = getData w u"
  "getData (w\<lparr>fresh := n\<rparr>) u = getData w u"
  "getData (w\<lparr>handles := hs\<rparr>) u = getData w u"
  "getData (w\<lparr>suspended := ss\<rparr>) u = getData w u"
  "getData (w\<lparr>awaiting_save := aw\<rparr>) u = getData w u"
  "getData (w\<lparr>disk := e\<rparr>) u = getData w u"
  "getData (w\<lparr>w_path := p\<rparr>) u = getData w u"
  by (auto simp: getData_def getDBStatus_def hasDB_def upd_transaction_def enqueue_microtask_def
        record_event_def resolver_def deliver_def split: option.splits)

lemma getData_writeDB [simp]: "getData (snd (writeDB J u' w)) u = getData w u"
  by (auto simp: writeDB_def split: sum.splits prod.splits)

lemma getData_run_todo [simp]: "getData (run_todo J u' ev job w) u = getData w u"
  by (auto simp: run_todo_def Let_def case_prod_beta split: todo.splits)

lemma getData_on_event [simp]: "getData (on_event J u' ev w) u = getData w u"
  by (auto simp: on_event_def Let_def split: list.splits)

lemma getData_wait [simp]: "getData (wait J u' ev h td n w) u = getData w u"
  by (auto simp: wait_def Let_def)

lemma getData_close [simp]: "getData (snd (close h w)) u = getData w u"
  by (auto simp: close_def Let_def split: option.splits unlockfn.splits)

lemma getData_use [simp]: "getData (snd (use h w)) u = getData w u"
  by (auto simp: use_def split: option.splits)

lemma getData_save [simp]: "getData (snd (save J h w)) u = getData w u"
  by (auto simp: save_def split: option.splits sum.splits)

lemma getData_saveClose [simp]: "getData (snd (saveClose J h w)) u = getData w u"
proof -
  have "getData (snd (save J h w)) u = getData w u" by simp
  then show ?thesis
    by (cases "save J h w"; cases "fst (save J h w)")
       (auto simp: saveClose_def split: option.splits)
qed

lemma getData_asyncDispose [simp]: "getData (snd (asyncDispose J h w)) u = getData w u"
  by (auto simp: asyncDispose_def split: option.splits)



lemma getData_tick [simp]: "getData (tick J w) u = getData w u"
proof (cases "microtasks w")
  case Nil
  then show ?thesis by (simp add: tick_def)
next
  case (Cons t ts)
  then show ?thesis by (cases t) (auto simp: tick_def split: option.splits)
qed










subsection \<open>The default and the saved document\<close>




section \<open>Operations on a handle that holds no lock\<close>

lemma not_locked_fatal:
  assumes "handles w h = Some x" and "\<not> h_locking x"
  shows "data_get h w = (Throws NotLocked, w)" and "data_set h d w = (Throws NotLocked, w)"
    and "save J h w = (Throws NotLocked, w)" and "saveClose J h w = (Throws NotLocked, w)"
    and "h_unlockDB x = Thrower \<Longrightarrow> close h w = (Throws UseBeforeUnlock, w)"
  using assms by (simp_all add: data_get_def data_set_def save_def saveClose_def close_def)

lemma close_again:
  assumes "handles w h = Some x" and "\<not> h_locking x" and "h_unlockDB x = Resolver i" and "i \<in> resolved w"
  shows "close h w = (Returns (), w)"
proof -
  have "x\<lparr>h_locking := False\<rparr> = x" using assms(2) by simp
  then have "(handles w)(h \<mapsto> x\<lparr>h_locking := False\<rparr>) = handles w" using assms(1) by auto
  then show ?thesis using assms by (simp add: close_def resolver_def)
qed

text \<open>
  Claim C7 asks that \<open>close()\<close> raise on a handle that was opened and then closed.
  The code does not: \<open>close\<close> calls the stored \<open>unlockDB\<close> without testing
  \<open>__locking\<close>, and after a first \<open>close\<close> the stored function is still
  the resolver of the lock that was given up, whose second call does nothing. On the handle of
  \<^term>\<open>w_ready\<close>, which holds the lock, the first \<open>close\<close> returns
  and unlocks, and the second \<open>close\<close> returns as well, the state unchanged.
\<close>

theorem close_after_close_returns:
  "fst (close 0 w_ready) = Returns () \<and> w_closed = snd (close 0 w_ready) \<and>
   map_option h_locking (handles w_closed 0) = Some False \<and>
   close 0 w_closed = (Returns (), w_closed)"
proof -
  let ?x = "\<lparr>h_class = ''SillyDB.a'', h_default = JNum 1, h_locking = False,
              h_unlockDB = Resolver (''SillyDB.a'', 0, 1)\<rparr>"
  have a: "fst (close 0 w_ready) = Returns ()" by code_simp
  have b: "handles w_closed 0 = Some ?x" by code_simp
  have c: "(''SillyDB.a'', 0, 1) \<in> resolved w_closed" by code_simp
  have "close 0 w_closed = (Returns (), w_closed)"
    by (rule close_again [OF b _ _ c]) simp_all
  with a b show ?thesis by (simp add: w_closed_def)
qed

section \<open>The copy of the default value\<close>

lemma first_error_mem: "first_error rs = Some e \<Longrightarrow> Inl e \<in> set rs"
  by (induction rs rule: first_error.induct) auto






lemma serialize_circular:
  assumes "serialize h st v = Inl e"
  shows "circular h st v"
  using assms
proof (induction h st v arbitrary: e rule: serialize.induct)
  case (7 h st a)
  show ?case
  proof (cases "a \<in> set st")
    case True
    then show ?thesis by (rule circ_seen)
  next
    case False
    show ?thesis
    proof (cases "map_of h a")
      case None
      with False 7(3) show ?thesis by simp
    next
      case (Some ob)
      show ?thesis
      proof (cases ob)
        case (Array xs)
        with False Some 7(3)
        have "first_error (map (serialize h (a # st)) xs) = Some e"
          by (auto simp: Let_def split: option.splits)
        from first_error_mem [OF this] obtain x where x: "x \<in> set xs" "serialize h (a # st) x = Inl e"
          by auto
        from 7(1) [OF False Some Array x] have "circular h (a # st) x" .
        with False Some Array x(1) show ?thesis by (auto intro: circ_element)
      next
        case (Object kvs)
        with False Some 7(3)
        have "first_error (map snd (map (\<lambda>kv. (fst kv, serialize h (a # st) (snd kv))) kvs)) = Some e"
          by (auto simp: Let_def split: option.splits)
        from first_error_mem [OF this] obtain kv where kv: "kv \<in> set kvs" "serialize h (a # st) (snd kv) = Inl e"
          by auto
        from 7(2) [OF False Some Object kv] have "circular h (a # st) (snd kv)" .
        with False Some Object kv(1) show ?thesis by (auto intro: circ_property)
      qed
    qed
  qed
qed simp_all










section \<open>Writing through the read-only view\<close>

lemma lookup_path_None [simp]: "lookup_path None ks = None"
  by (cases ks) simp_all

lemma lookup_path_append: "lookup_path d (xs @ ys) = lookup_path (lookup_path d xs) ys"
  by (induction xs arbitrary: d) (simp_all split: option.splits)

lemma js_get_primitive: "\<not> is_object (Some v) \<Longrightarrow> \<not> is_object (js_get v k)"
proof (cases v)
  case (JStr s)
  show ?thesis
    by (cases "find (\<lambda>i. show_nat i = k) [0..<length s]") (simp_all add: JStr)
qed simp_all

lemma lookup_path_primitive: "\<not> is_object d \<Longrightarrow> \<not> is_object (lookup_path d ks)"
proof (induction ks arbitrary: d)
  case Nil
  then show ?case by simp
next
  case (Cons k ks)
  show ?case
  proof (cases d)
    case None
    then show ?thesis by simp
  next
    case (Some v)
    with Cons.prems have "\<not> is_object (js_get v k)" by (simp add: js_get_primitive)
    from Cons.IH [OF this] Some show ?thesis by simp
  qed
qed

lemma is_object_prefix:
  assumes "is_object (lookup_path d (ps @ ks))"
  shows "is_object (lookup_path d ps)"
  using assms lookup_path_primitive [of "lookup_path d ps" ks] by (auto simp: lookup_path_append)

lemma makeReadonly_object:
  assumes "is_object (lookup_path (deref w org) ks)"
  shows "makeReadonly w org ks = Proxy org ks"
  using assms by (auto simp: makeReadonly_def Let_def)

lemma view_path_proxy:
  assumes "is_object (lookup_path (deref w org) (ps @ ks))"
  shows "view_path (Proxy org ps) ks w = Returns (Proxy org (ps @ ks))"
  using assms
proof (induction ks arbitrary: ps)
  case Nil
  then show ?case by simp
next
  case (Cons k ks)
  from Cons.prems have p: "is_object (lookup_path (deref w org) ((ps @ [k]) @ ks))" by simp
  from is_object_prefix [OF p] have "makeReadonly w org (ps @ [k]) = Proxy org (ps @ [k])"
    by (rule makeReadonly_object)
  with Cons.IH [OF p] show ?case by (simp add: view_get_def proxy_get_def)
qed

lemma view_assign_proxy: "view_assign (Proxy org ks) k y w = (Returns (), w)"
  by (simp add: view_assign_def proxy_set_def)

lemma view_delete_proxy:
  "view_delete (Proxy org ks) k w =
     (if is_array (lookup_path (deref w org) ks) \<and> k = ''length'' then (Throws TypeError, w)
      else if is_object (lookup_path (deref w org) ks) then (Returns (), w)
      else view_delete (Proxy org ks) k w)"
  by (cases "lookup_path (deref w org) ks"; cases "the (lookup_path (deref w org) ks)")
     (auto simp: view_delete_def proxy_deleteProperty_def)

text \<open>
  Claim C9, as the code has it. Let \<open>dataReadonly\<close> return on a handle: the view is made
  over the in-memory document of the identifier, or over the handle's default when the
  document is absent or taken as false. At every key path where that value holds an object
  or an array, the view is a proxy; assigning any value to any property of that proxy returns
  and changes nothing; deleting any property of it changes nothing either, and returns,
  except for the \<open>length\<close> of an array, where the delete throws a \<open>TypeError\<close>.
  The state after the attempt is the state before it, so the document is what it was.
\<close>

theorem readonly_view_write_inert:
  assumes "dataReadonly h w = Returns v"
  shows "\<exists>x d. handles w h = Some x \<and> getData w (h_class x) = Inr d \<and>
     (let org = (if falsy d then Default h else Document (h_class x));
          doc = (if falsy d then Some (h_default x) else d)
      in deref w org = doc \<and> v = makeReadonly w org [] \<and>
         (\<forall>ks. is_object (lookup_path doc ks) \<longrightarrow>
            view_path v ks w = Returns (Proxy org ks) \<and>
            (\<forall>k y. view_assign (Proxy org ks) k y w = (Returns (), w)) \<and>
            (\<forall>k. view_delete (Proxy org ks) k w =
               (if is_array (lookup_path doc ks) \<and> k = ''length'' then (Throws TypeError, w)
                else (Returns (), w)))))"
proof -
  from assms obtain x d where x: "handles w h = Some x" and d: "getData w (h_class x) = Inr d"
    by (auto simp: dataReadonly_def split: option.splits sum.splits)
  define org where "org = (if falsy d then Default h else Document (h_class x))"
  define doc where "doc = (if falsy d then Some (h_default x) else d)"
  have dr: "deref w org = doc"
    using x d
    by (auto simp: org_def doc_def deref_def getData_def getDBStatus_def hasDB_def
             split: option.splits)
  have v: "v = makeReadonly w org []"
    using assms x d by (auto simp: dataReadonly_def org_def)
  have main: "view_path v ks w = Returns (Proxy org ks) \<and>
            (\<forall>k y. view_assign (Proxy org ks) k y w = (Returns (), w)) \<and>
            (\<forall>k. view_delete (Proxy org ks) k w =
               (if is_array (lookup_path doc ks) \<and> k = ''length'' then (Throws TypeError, w)
                else (Returns (), w)))"
    if o: "is_object (lookup_path doc ks)" for ks
  proof -
    from o dr have o': "is_object (lookup_path (deref w org) ([] @ ks))" by simp
    from is_object_prefix [OF o'] have "v = Proxy org []"
      unfolding v by (rule makeReadonly_object)
    with view_path_proxy [OF o'] have 1: "view_path v ks w = Returns (Proxy org ks)" by simp
    have 2: "view_delete (Proxy org ks) k w =
               (if is_array (lookup_path doc ks) \<and> k = ''length'' then (Throws TypeError, w)
                else (Returns (), w))" for k
      using view_delete_proxy [of org ks k w] o dr by auto
    from 1 2 show ?thesis by (simp add: view_assign_proxy)
  qed
  from x d dr v main show ?thesis
    unfolding org_def doc_def Let_def by blast
qed

text \<open>
  The theorem at work on the document \<open>{"l": [1, 2], "n": 3}\<close>: an element and the
  \<open>length\<close> of the list are assigned, an element and the list itself are deleted, and
  every attempt returns with the state unchanged.
\<close>

theorem readonly_view_write_inert_witness:
  "getData w_list ''SillyDB.a'' = Inr (Some (JObj [(''l'', JArr [JNum 1, JNum 2]), (''n'', JNum 3)])) \<and>
   view_path (Proxy (Document ''SillyDB.a'') []) [''l''] w_list =
     Returns (Proxy (Document ''SillyDB.a'') [''l'']) \<and>
   view_assign (Proxy (Document ''SillyDB.a'') [''l'']) ''0'' (JNum 9) w_list = (Returns (), w_list) \<and>
   view_assign (Proxy (Document ''SillyDB.a'') [''l'']) ''length'' (JNum 0) w_list = (Returns (), w_list) \<and>
   view_delete (Proxy (Document ''SillyDB.a'') [''l'']) ''1'' w_list = (Returns (), w_list) \<and>
   view_delete (Proxy (Document ''SillyDB.a'') []) ''l'' w_list = (Returns (), w_list)"
proof -
  let ?doc = "JObj [(''l'', JArr [JNum 1, JNum 2]), (''n'', JNum 3)]"
  let ?org = "Document ''SillyDB.a''"
  have r: "dataReadonly 0 w_list = Returns (Proxy ?org [])" by code_simp
  have g: "getData w_list ''SillyDB.a'' = Inr (Some ?doc)" by code_simp
  have c: "map_option h_class (handles w_list 0) = Some ''SillyDB.a''" by code_simp
  from readonly_view_write_inert [OF r] obtain x d where
    x: "handles w_list 0 = Some x" and d: "getData w_list (h_class x) = Inr d" and
    rest: "let org = (if falsy d then Default 0 else Document (h_class x));
          doc = (if falsy d then Some (h_default x) else d)
      in deref w_list org = doc \<and> Proxy ?org [] = makeReadonly w_list org [] \<and>
         (\<forall>ks. is_object (lookup_path doc ks) \<longrightarrow>
            view_path (Proxy ?org []) ks w_list = Returns (Proxy org ks) \<and>
            (\<forall>k y. view_assign (Proxy org ks) k y w_list = (Returns (), w_list)) \<and>
            (\<forall>k. view_delete (Proxy org ks) k w_list =
               (if is_array (lookup_path doc ks) \<and> k = ''length'' then (Throws TypeError, w_list)
                else (Returns (), w_list))))"
    by blast
  from x c have hc: "h_class x = ''SillyDB.a''" by simp
  with d g have dd: "d = Some ?doc" by simp
  have nf: "\<not> falsy (Some ?doc)" by simp
  from rest have all: "\<forall>ks. is_object (lookup_path (Some ?doc) ks) \<longrightarrow>
            view_path (Proxy ?org []) ks w_list = Returns (Proxy ?org ks) \<and>
            (\<forall>k y. view_assign (Proxy ?org ks) k y w_list = (Returns (), w_list)) \<and>
            (\<forall>k. view_delete (Proxy ?org ks) k w_list =
               (if is_array (lookup_path (Some ?doc) ks) \<and> k = ''length''
                then (Throws TypeError, w_list) else (Returns (), w_list)))"
    unfolding Let_def hc dd if_not_P [OF nf] by (rule conjunct2 [THEN conjunct2])
  have o1: "is_object (lookup_path (Some ?doc) [''l''])" by simp
  have o0: "is_object (lookup_path (Some ?doc) [])" by simp
  note a1 = all [rule_format, OF o1]
  note a0 = all [rule_format, OF o0]
  have ne: "''1'' \<noteq> ''length''" "''l'' \<noteq> ''length''" by simp_all
  have 1: "view_path (Proxy ?org []) [''l''] w_list = Returns (Proxy ?org [''l''])"
    using a1 by (rule conjunct1)
  have 2: "view_assign (Proxy ?org [''l'']) ''0'' (JNum 9) w_list = (Returns (), w_list)"
    using a1 [THEN conjunct2, THEN conjunct1] by (rule allE [THEN allE])
  have 3: "view_assign (Proxy ?org [''l'']) ''length'' (JNum 0) w_list = (Returns (), w_list)"
    using a1 [THEN conjunct2, THEN conjunct1] by (rule allE [THEN allE])
  have 4: "view_delete (Proxy ?org [''l'']) ''1'' w_list = (Returns (), w_list)"
    using a1 [THEN conjunct2, THEN conjunct2, rule_format, of "''1''"] ne(1)
    by (simp only: simp_thms if_False)
  have 5: "view_delete (Proxy ?org []) ''l'' w_list = (Returns (), w_list)"
    using a0 [THEN conjunct2, THEN conjunct2, rule_format, of "''l''"] ne(2)
    by (simp only: simp_thms if_False)
  from g 1 2 3 4 5 show ?thesis by (intro conjI)
qed

text \<open>
  Deleting through the view is not always silent. On the same document,
  \<open>delete view.l.length\<close> throws: the \<open>deleteProperty\<close> trap answers
  \<open>true\<close> for a property of its target that is not configurable, which a proxy
  must not do.
\<close>

theorem deleting_length_of_list_throws:
  "dataReadonly 0 w_list = Returns (Proxy (Document ''SillyDB.a'') []) \<and>
   view_path (Proxy (Document ''SillyDB.a'') []) [''l''] w_list =
     Returns (Proxy (Document ''SillyDB.a'') [''l'']) \<and>
   fst (view_delete (Proxy (Document ''SillyDB.a'') [''l'']) ''length'' w_list) = Throws TypeError"
  by code_simp

end
